theory Spec2Isabelle
  imports Main "HOL-Library.AList"
begin

section \<open>The crossword constraint-satisfaction engine of task3/generate.py\<close>

text \<open>
  The class \<open>CrosswordCreator\<close> of \<open>task3/generate.py\<close> is embedded function by
  function. Python sets and dicts are lists in iteration order (a dict is an association
  list in insertion order, \<open>d[k] = v\<close> is \<open>AList.update\<close>, \<open>del d[k]\<close> is
  \<open>AList.delete\<close>); every \<open>KeyError\<close>, \<open>IndexError\<close> and \<open>ValueError\<close> the
  interpreter can raise is a value \<open>Inl e\<close>. The attribute \<open>self.domains\<close> is passed
  in and returned explicitly. Calls of \<open>print\<close> write to the terminal only and are left
  out, and so are the limits of the interpreter (memory, recursion depth).
\<close>

subsection \<open>Data\<close>

datatype error = KeyError | IndexError | ValueError

datatype direction = ACROSS | DOWN

text \<open>
  Modelled from the spec: the class \<open>Variable\<close> of \<open>crossword.py\<close> (a slot), which is
  not among the sources. A slot is identified by row, column, orientation and length.
\<close>

datatype variable = Variable (i_v: nat) (j_v: nat) (direction_v: direction) (length_v: nat)

text \<open>
  Modelled from the spec: the class \<open>Crossword\<close> of \<open>crossword.py\<close> (the puzzle model),
  which is not among the sources. It is a parameter of every operation: the slots, the
  vocabulary, the overlap of a pair of slots (\<open>overlaps.get((x, y))\<close>, \<open>None\<close> when the
  pair does not cross) and the neighbours of a slot, the last two sets in iteration
  order.
\<close>

record crossword =
  variables :: "variable list"
  words :: "string list"
  overlaps :: "variable \<times> variable \<Rightarrow> (nat \<times> nat) option"
  neighbors :: "variable \<Rightarrow> variable list"

type_synonym domains = "(variable \<times> string list) list"
type_synonym assignment = "(variable \<times> string) list"

subsection \<open>Python primitives\<close>

text \<open>\<open>d[k]\<close> on a dict.\<close>

definition lookup :: "('k \<times> 'v) list \<Rightarrow> 'k \<Rightarrow> error + 'v" where
  "lookup d k = (case map_of d k of None \<Rightarrow> Inl KeyError | Some v \<Rightarrow> Inr v)"

text \<open>\<open>k in d\<close> on a dict.\<close>

definition has_key :: "('k \<times> 'v) list \<Rightarrow> 'k \<Rightarrow> bool" where
  "has_key d k = (map_of d k \<noteq> None)"

text \<open>\<open>del d[k]\<close> on a dict.\<close>

definition delitem :: "('k \<times> 'v) list \<Rightarrow> 'k \<Rightarrow> error + ('k \<times> 'v) list" where
  "delitem d k = (if has_key d k then Inr (AList.delete k d) else Inl KeyError)"

text \<open>\<open>w[n]\<close> on a string, for an index that is not negative.\<close>

definition getitem :: "'a list \<Rightarrow> nat \<Rightarrow> error + 'a" where
  "getitem w n = (if n < length w then Inr (w ! n) else Inl IndexError)"

text \<open>\<open>s -= t\<close> on a set: the elements that stay keep their order.\<close>

definition set_minus :: "'a list \<Rightarrow> 'a list \<Rightarrow> 'a list" where
  "set_minus s t = filter (\<lambda>w. w \<notin> set t) s"

subsection \<open>The constructor\<close>

text \<open>\<open>__init__\<close>: every slot starts with a copy of the whole vocabulary.\<close>

definition CrosswordCreator :: "crossword \<Rightarrow> domains" where
  "CrosswordCreator cw = map (\<lambda>var. (var, words cw)) (variables cw)"

subsection \<open>Node consistency\<close>

fun enforce_loop :: "variable list \<Rightarrow> domains \<Rightarrow> error + domains" where
  "enforce_loop [] doms = Inr doms"
| "enforce_loop (var # vs) doms =
     (case lookup doms var of
        Inl e \<Rightarrow> Inl e
      | Inr d \<Rightarrow>
          enforce_loop vs
            (AList.update var (set_minus d (filter (\<lambda>word. length word \<noteq> length_v var) d)) doms))"

definition enforce_node_consistency :: "crossword \<Rightarrow> domains \<Rightarrow> error + domains" where
  "enforce_node_consistency cw doms = enforce_loop (variables cw) doms"

subsection \<open>Revise\<close>

text \<open>\<open>any(word_x[i] == word_y[j] for word_y in dy)\<close>, which stops at the first match.\<close>

fun any_match :: "string \<Rightarrow> nat \<Rightarrow> nat \<Rightarrow> string list \<Rightarrow> error + bool" where
  "any_match word_x i j [] = Inr False"
| "any_match word_x i j (word_y # dy) =
     (case getitem word_x i of
        Inl e \<Rightarrow> Inl e
      | Inr a \<Rightarrow>
          (case getitem word_y j of
             Inl e \<Rightarrow> Inl e
           | Inr b \<Rightarrow> if a = b then Inr True else any_match word_x i j dy))"

text \<open>
  The loop over \<open>self.domains[x]\<close>; the state is \<open>(words_to_remove, revised)\<close>.
  \<open>self.domains[y]\<close> is read once for every word of x.
\<close>

fun revise_loop ::
  "domains \<Rightarrow> variable \<Rightarrow> nat \<Rightarrow> nat \<Rightarrow> string list \<Rightarrow> string list \<times> bool
     \<Rightarrow> error + string list \<times> bool" where
  "revise_loop doms y i j [] st = Inr st"
| "revise_loop doms y i j (word_x # dx) (words_to_remove, revised) =
     (case lookup doms y of
        Inl e \<Rightarrow> Inl e
      | Inr dy \<Rightarrow>
          (case any_match word_x i j dy of
             Inl e \<Rightarrow> Inl e
           | Inr m \<Rightarrow>
               if \<not> m then revise_loop doms y i j dx (words_to_remove @ [word_x], True)
               else revise_loop doms y i j dx (words_to_remove, revised)))"

definition revise :: "crossword \<Rightarrow> variable \<Rightarrow> variable \<Rightarrow> domains \<Rightarrow> error + bool \<times> domains" where
  "revise cw x y doms =
     (case overlaps cw (x, y) of
        None \<Rightarrow> Inr (False, doms)
      | Some (i, j) \<Rightarrow>
          (case lookup doms x of
             Inl e \<Rightarrow> Inl e
           | Inr dx \<Rightarrow>
               (case revise_loop doms y i j dx ([], False) of
                  Inl e \<Rightarrow> Inl e
                | Inr (words_to_remove, revised) \<Rightarrow>
                    if revised then Inr (True, AList.update x (set_minus dx words_to_remove) doms)
                    else Inr (False, doms))))"

subsection \<open>AC-3\<close>

definition all_arcs :: "crossword \<Rightarrow> (variable \<times> variable) list" where
  "all_arcs cw = concat (map (\<lambda>x. map (\<lambda>y. (x, y)) (neighbors cw x)) (variables cw))"

definition total_size :: "domains \<Rightarrow> nat" where
  "total_size doms = sum_list (map (\<lambda>p. length (snd p)) doms)"


text \<open>Facts about \<open>revise\<close> that the termination of the propagation loop rests on.\<close>

lemma total_size_update:
  "map_of doms x = Some dx \<Longrightarrow> total_size (AList.update x d' doms) + length dx = total_size doms + length d'"
  by (induction doms) (auto simp: total_size_def)

lemma revise_loop_acc:
  "revise_loop doms y i j dx (rem, rv) = Inr (rem', rv') \<Longrightarrow>
     (\<exists>extra. rem' = rem @ extra \<and> set extra \<subseteq> set dx \<and> (rv' \<longleftrightarrow> rv \<or> extra \<noteq> []))"
proof (induction dx arbitrary: rem rv)
  case Nil
  then show ?case by simp
next
  case (Cons w dx)
  then show ?case
    by (fastforce split: sum.splits if_splits)
qed

lemma length_set_minus:
  "set extra \<subseteq> set dx \<Longrightarrow> extra \<noteq> [] \<Longrightarrow> length (set_minus dx extra) < length dx"
proof -
  assume a: "set extra \<subseteq> set dx" "extra \<noteq> []"
  then obtain w where w: "w \<in> set extra" "w \<in> set dx" by (cases extra) auto
  then show ?thesis
    unfolding set_minus_def by (intro length_filter_less[of w]) auto
qed

lemma revise_False: "revise cw x y doms = Inr (False, doms') \<Longrightarrow> doms' = doms"
  by (auto simp: revise_def split: option.splits sum.splits prod.splits if_splits)

lemma revise_True:
  assumes "revise cw x y doms = Inr (True, doms')"
  shows "total_size doms' < total_size doms"
proof -
  from assms obtain i j dx rem where
    dx: "lookup doms x = Inr dx" and
    lp: "revise_loop doms y i j dx ([], False) = Inr (rem, True)" and
    d': "doms' = AList.update x (set_minus dx rem) doms"
    by (auto simp: revise_def split: option.splits sum.splits prod.splits if_splits)
  from revise_loop_acc[OF lp] have "set rem \<subseteq> set dx" "rem \<noteq> []" by auto
  then have "length (set_minus dx rem) < length dx" by (rule length_set_minus)
  moreover from dx have "map_of doms x = Some dx"
    by (auto simp: lookup_def split: option.splits)
  from total_size_update[OF this, of "set_minus dx rem"]
  have "total_size doms' + length dx = total_size doms + length (set_minus dx rem)"
    by (simp add: d')
  ultimately show ?thesis by linarith
qed

text \<open>
  The \<open>while queue:\<close> loop of \<open>ac3\<close>. \<open>queue.pop(0)\<close> takes the head; the arcs
  \<open>(z, x)\<close> are appended at the end. The loop terminates because a revision that
  returns True makes the domains smaller and one that returns False makes the queue
  shorter.
\<close>

function ac3_loop ::
  "crossword \<Rightarrow> (variable \<times> variable) list \<Rightarrow> domains \<Rightarrow> error + bool \<times> domains" where
  "ac3_loop cw [] doms = Inr (True, doms)"
| "ac3_loop cw ((x, y) # queue) doms =
     (case revise cw x y doms of
        Inl e \<Rightarrow> Inl e
      | Inr (revised, doms') \<Rightarrow>
          if revised then
            (case lookup doms' x of
               Inl e \<Rightarrow> Inl e
             | Inr dx \<Rightarrow>
                 if dx = [] then Inr (False, doms')
                 else ac3_loop cw (queue @ map (\<lambda>z. (z, x)) (filter (\<lambda>z. z \<noteq> y) (neighbors cw x))) doms')
          else ac3_loop cw queue doms')"
  by pat_completeness auto
termination
proof (relation "measures [\<lambda>(cw, queue, doms). total_size doms, \<lambda>(cw, queue, doms). length queue]")
  show "wf (measures [\<lambda>(cw, queue, doms). total_size doms, \<lambda>(cw, queue, doms). length queue])" by simp
next
  fix cw x y queue doms x2 revised doms' x2a
  assume "revise cw x y doms = Inr x2" "(revised, doms') = x2" "revised"
  then have "revise cw x y doms = Inr (True, doms')" by auto
  from revise_True[OF this]
  show "((cw, queue @ map (\<lambda>z. (z, x)) (filter (\<lambda>z. z \<noteq> y) (neighbors cw x)), doms'), cw, (x, y) # queue, doms)
       \<in> measures [\<lambda>(cw, queue, doms). total_size doms, \<lambda>(cw, queue, doms). length queue]"
    by simp
next
  fix cw x y queue doms x2 revised doms'
  assume "revise cw x y doms = Inr x2" "(revised, doms') = x2" "\<not> revised"
  then have "revise cw x y doms = Inr (False, doms')" by auto
  from revise_False[OF this]
  show "((cw, queue, doms'), cw, (x, y) # queue, doms) \<in> measures [\<lambda>(cw, queue, doms). total_size doms, \<lambda>(cw, queue, doms). length queue]"
    by simp
qed

definition ac3 :: "crossword \<Rightarrow> (variable \<times> variable) list option \<Rightarrow> domains \<Rightarrow> error + bool \<times> domains" where
  "ac3 cw arcs doms =
     (case arcs of
        None \<Rightarrow> ac3_loop cw (all_arcs cw) doms
      | Some arcs' \<Rightarrow> ac3_loop cw arcs' doms)"


subsection \<open>The search driver\<close>

text \<open>
  An assignment is a dict from slots to words. \<open>consistent\<close> goes through its items
  in insertion order with the set \<open>words\<close> of the words seen so far.
\<close>

definition assignment_complete :: "crossword \<Rightarrow> assignment \<Rightarrow> bool" where
  "assignment_complete cw a = (length a = length (variables cw))"

fun consistent_neighbors ::
  "crossword \<Rightarrow> assignment \<Rightarrow> variable \<Rightarrow> string \<Rightarrow> variable list \<Rightarrow> error + bool" where
  "consistent_neighbors cw a var word [] = Inr True"
| "consistent_neighbors cw a var word (neighbor # ns) =
     (if has_key a neighbor then
        (case overlaps cw (var, neighbor) of
           None \<Rightarrow> consistent_neighbors cw a var word ns
         | Some (i, j) \<Rightarrow>
             (case getitem word i of
                Inl e \<Rightarrow> Inl e
              | Inr c \<Rightarrow>
                  (case lookup a neighbor of
                     Inl e \<Rightarrow> Inl e
                   | Inr neighbor_word \<Rightarrow>
                       (case getitem neighbor_word j of
                          Inl e \<Rightarrow> Inl e
                        | Inr c' \<Rightarrow>
                            if c \<noteq> c' then Inr False
                            else consistent_neighbors cw a var word ns))))
      else consistent_neighbors cw a var word ns)"

fun consistent_loop ::
  "crossword \<Rightarrow> assignment \<Rightarrow> assignment \<Rightarrow> string list \<Rightarrow> error + bool" where
  "consistent_loop cw a [] words_seen = Inr True"
| "consistent_loop cw a ((var, word) # items) words_seen =
     (if word \<in> set words_seen then Inr False
      else if length word \<noteq> length_v var then Inr False
      else
        (case consistent_neighbors cw a var word (neighbors cw var) of
           Inl e \<Rightarrow> Inl e
         | Inr ok \<Rightarrow>
             if ok then consistent_loop cw a items (word # words_seen) else Inr False))"

definition consistent :: "crossword \<Rightarrow> assignment \<Rightarrow> error + bool" where
  "consistent cw a = consistent_loop cw a a []"

text \<open>
  \<open>order_domain_values\<close>: \<open>count_conflicts\<close> is the key function, and \<open>sorted\<close>
  computes the key of every element in order and then sorts stably.
\<close>

fun count_words :: "string \<Rightarrow> nat \<Rightarrow> nat \<Rightarrow> string list \<Rightarrow> nat \<Rightarrow> error + nat" where
  "count_words word i j [] count = Inr count"
| "count_words word i j (neighbor_word # ds) count =
     (case getitem word i of
        Inl e \<Rightarrow> Inl e
      | Inr c \<Rightarrow>
          (case getitem neighbor_word j of
             Inl e \<Rightarrow> Inl e
           | Inr c' \<Rightarrow> count_words word i j ds (if c \<noteq> c' then count + 1 else count)))"

fun count_loop ::
  "crossword \<Rightarrow> assignment \<Rightarrow> domains \<Rightarrow> variable \<Rightarrow> string \<Rightarrow> variable list \<Rightarrow> nat
     \<Rightarrow> error + nat" where
  "count_loop cw a doms var word [] count = Inr count"
| "count_loop cw a doms var word (neighbor # ns) count =
     (if \<not> has_key a neighbor then
        (case overlaps cw (var, neighbor) of
           None \<Rightarrow> count_loop cw a doms var word ns count
         | Some (i, j) \<Rightarrow>
             (case lookup doms neighbor of
                Inl e \<Rightarrow> Inl e
              | Inr dn \<Rightarrow>
                  (case count_words word i j dn count of
                     Inl e \<Rightarrow> Inl e
                   | Inr count' \<Rightarrow> count_loop cw a doms var word ns count')))
      else count_loop cw a doms var word ns count)"

definition count_conflicts ::
  "crossword \<Rightarrow> assignment \<Rightarrow> domains \<Rightarrow> variable \<Rightarrow> string \<Rightarrow> error + nat" where
  "count_conflicts cw a doms var word = count_loop cw a doms var word (neighbors cw var) 0"

fun keyed :: "('a \<Rightarrow> error + 'k) \<Rightarrow> 'a list \<Rightarrow> error + ('k \<times> 'a) list" where
  "keyed key [] = Inr []"
| "keyed key (x # xs) =
     (case key x of
        Inl e \<Rightarrow> Inl e
      | Inr k \<Rightarrow> (case keyed key xs of Inl e \<Rightarrow> Inl e | Inr ks \<Rightarrow> Inr ((k, x) # ks)))"

definition sorted_by :: "('a \<Rightarrow> error + nat) \<Rightarrow> 'a list \<Rightarrow> error + 'a list" where
  "sorted_by key xs =
     (case keyed key xs of Inl e \<Rightarrow> Inl e | Inr ks \<Rightarrow> Inr (map snd (sort_key fst ks)))"

definition order_domain_values ::
  "crossword \<Rightarrow> variable \<Rightarrow> assignment \<Rightarrow> domains \<Rightarrow> error + string list" where
  "order_domain_values cw var a doms =
     (case lookup doms var of
        Inl e \<Rightarrow> Inl e
      | Inr d \<Rightarrow> sorted_by (count_conflicts cw a doms var) d)"

text \<open>
  \<open>select_unassigned_variable\<close>: \<open>min\<close> with a key returns the first element whose
  key is least; the keys are pairs, compared lexicographically; \<open>min\<close> of an empty list
  raises \<open>ValueError\<close>.
\<close>

definition tuple_less :: "nat \<times> int \<Rightarrow> nat \<times> int \<Rightarrow> bool" where
  "tuple_less p q = (fst p < fst q \<or> (fst p = fst q \<and> snd p < snd q))"

fun min_loop :: "('a \<Rightarrow> error + nat \<times> int) \<Rightarrow> 'a list \<Rightarrow> 'a \<Rightarrow> nat \<times> int \<Rightarrow> error + 'a" where
  "min_loop key [] best best_key = Inr best"
| "min_loop key (v # vs) best best_key =
     (case key v of
        Inl e \<Rightarrow> Inl e
      | Inr k \<Rightarrow>
          if tuple_less k best_key then min_loop key vs v k
          else min_loop key vs best best_key)"

definition min_by :: "('a \<Rightarrow> error + nat \<times> int) \<Rightarrow> 'a list \<Rightarrow> error + 'a" where
  "min_by key xs =
     (case xs of
        [] \<Rightarrow> Inl ValueError
      | v # vs \<Rightarrow> (case key v of Inl e \<Rightarrow> Inl e | Inr k \<Rightarrow> min_loop key vs v k))"

definition sort_criteria :: "crossword \<Rightarrow> domains \<Rightarrow> variable \<Rightarrow> error + nat \<times> int" where
  "sort_criteria cw doms var =
     (case lookup doms var of
        Inl e \<Rightarrow> Inl e
      | Inr d \<Rightarrow> Inr (length d, - int (length (neighbors cw var))))"

definition select_unassigned_variable ::
  "crossword \<Rightarrow> assignment \<Rightarrow> domains \<Rightarrow> error + variable" where
  "select_unassigned_variable cw a doms =
     min_by (sort_criteria cw doms) (filter (\<lambda>v. \<not> has_key a v) (variables cw))"

text \<open>
  \<open>backtrack\<close> and its loop \<open>for value in ...\<close> (\<open>try_values\<close>, over the values not
  tried yet). The dict \<open>assignment\<close> is shared by all recursive calls and changed in
  place, so it is passed in and returned like \<open>self.domains\<close>: a call returns the
  result, the assignment and the domains as it leaves them. \<open>saved_domains\<close> is the
  state \<open>doms\<close> of the loop turn; restoring it is going on with \<open>doms\<close>.
  \<open>if result:\<close> tests the result for truth: None and the empty dict are false.
\<close>

definition truthy :: "assignment option \<Rightarrow> bool" where
  "truthy result = (case result of None \<Rightarrow> False | Some r \<Rightarrow> r \<noteq> [])"

function (domintros)
  backtrack ::
    "crossword \<Rightarrow> assignment \<Rightarrow> domains \<Rightarrow> error + assignment option \<times> assignment \<times> domains"
and try_values ::
    "crossword \<Rightarrow> variable \<Rightarrow> string list \<Rightarrow> assignment \<Rightarrow> domains
       \<Rightarrow> error + assignment option \<times> assignment \<times> domains"
where
  "backtrack cw a doms =
     (if assignment_complete cw a then Inr (Some a, a, doms)
      else
        (case select_unassigned_variable cw a doms of
           Inl e \<Rightarrow> Inl e
         | Inr var \<Rightarrow>
             (case order_domain_values cw var a doms of
                Inl e \<Rightarrow> Inl e
              | Inr vals \<Rightarrow> try_values cw var vals a doms)))"
| "try_values cw var [] a doms = Inr (None, a, doms)"
| "try_values cw var (val # vals) a doms =
     (case consistent cw (AList.update var val a) of
        Inl e \<Rightarrow> Inl e
      | Inr ok \<Rightarrow>
          if ok then
            (case ac3 cw None doms of
               Inl e \<Rightarrow> Inl e
             | Inr (ac3_ok, doms1) \<Rightarrow>
                 if ac3_ok then
                   (case backtrack cw (AList.update var val a) doms1 of
                      Inl e \<Rightarrow> Inl e
                    | Inr (result, a2, doms2) \<Rightarrow>
                        if truthy result then Inr (result, a2, doms2)
                        else
                          (case delitem a2 var of
                             Inl e \<Rightarrow> Inl e
                           | Inr a3 \<Rightarrow> try_values cw var vals a3 doms))
                 else
                   (case delitem (AList.update var val a) var of
                      Inl e \<Rightarrow> Inl e
                    | Inr a3 \<Rightarrow> try_values cw var vals a3 doms))
          else try_values cw var vals a doms)"
  by pat_completeness auto


text \<open>
  The recursion ends because every call of \<open>backtrack\<close> inside the loop has one more
  slot assigned. As the loop goes on with the assignment that the recursive call returns,
  this needs that a call never loses a key.
\<close>

lemma has_key_iff: "has_key d k \<longleftrightarrow> k \<in> fst ` set d"
  by (simp add: has_key_def map_of_eq_None_iff)

lemma min_loop_mem: "min_loop key vs best bk = Inr v \<Longrightarrow> v = best \<or> v \<in> set vs"
  by (induction vs arbitrary: best bk) (auto split: sum.splits if_splits)

lemma min_by_mem: "min_by key xs = Inr v \<Longrightarrow> v \<in> set xs"
  by (auto simp: min_by_def split: list.splits sum.splits dest: min_loop_mem)

lemma select_unassigned_variable_mem:
  "select_unassigned_variable cw a doms = Inr var \<Longrightarrow>
     var \<in> set (variables cw) \<and> var \<notin> fst ` set a"
proof -
  assume "select_unassigned_variable cw a doms = Inr var"
  then have "var \<in> set (filter (\<lambda>v. \<not> has_key a v) (variables cw))"
    unfolding select_unassigned_variable_def by (rule min_by_mem)
  then show ?thesis by (simp add: has_key_iff)
qed

lemma delete_keys_set: "fst ` set (AList.delete k d) = fst ` set d - {k}"
  by (induction d) auto

lemma delitem_keys: "delitem d k = Inr d' \<Longrightarrow> fst ` set d' = fst ` set d - {k}"
proof -
  assume "delitem d k = Inr d'"
  then have "d' = AList.delete k d"
    by (simp add: delitem_def split: if_splits)
  then show ?thesis by (simp only: delete_keys_set)
qed

lemma keys_sub1: "A - {v} \<subseteq> B \<Longrightarrow> v \<notin> A \<Longrightarrow> A \<subseteq> B"
  by blast

lemma keys_sub2: "A3 - {v} \<subseteq> B \<Longrightarrow> A3 = ({v} \<union> A) - {v} \<Longrightarrow> A - {v} \<subseteq> B"
  by blast

lemma keys_sub3: "{v} \<union> A \<subseteq> B \<Longrightarrow> A - {v} \<subseteq> B"
  by blast

lemma keys_sub4:
  "A3 - {v} \<subseteq> B \<Longrightarrow> A3 = A2 - {v} \<Longrightarrow> {v} \<union> A \<subseteq> A2 \<Longrightarrow> A - {v} \<subseteq> B"
  by blast

lemma backtrack_keys_partial:
  "backtrack_try_values_dom (Inl (cw, a, doms)) \<Longrightarrow>
     backtrack cw a doms = Inr (res, a', d') \<Longrightarrow> fst ` set a \<subseteq> fst ` set a'"
  "backtrack_try_values_dom (Inr (cw, var, vals, a, doms)) \<Longrightarrow>
     try_values cw var vals a doms = Inr (res, a', d') \<Longrightarrow> fst ` set a - {var} \<subseteq> fst ` set a'"
proof (induction cw a doms and cw var vals a doms arbitrary: res a' d' and res a' d'
    rule: backtrack_try_values.pinduct)
  case (1 cw a doms)
  show ?case
  proof (cases "assignment_complete cw a")
    case True
    with 1 show ?thesis by (simp add: backtrack.psimps)
  next
    case False
    with "1.prems" "1.hyps" obtain var vals where
      sel: "select_unassigned_variable cw a doms = Inr var" and
      ord: "order_domain_values cw var a doms = Inr vals" and
      tv: "try_values cw var vals a doms = Inr (res, a', d')"
      by (auto simp: backtrack.psimps split: sum.splits)
    from select_unassigned_variable_mem[OF sel] have "var \<notin> fst ` set a" by simp
    with "1.IH"[OF False sel ord tv] show ?thesis by (rule keys_sub1)
  qed
next
  case (2 cw var a doms)
  then show ?case by (simp add: try_values.psimps)
next
  case (3 cw var val vals a doms)
  from "3.prems" "3.hyps" have eq:
    "(case consistent cw (AList.update var val a) of
        Inl e \<Rightarrow> Inl e
      | Inr ok \<Rightarrow>
          if ok then
            (case ac3 cw None doms of
               Inl e \<Rightarrow> Inl e
             | Inr (ac3_ok, doms1) \<Rightarrow>
                 if ac3_ok then
                   (case backtrack cw (AList.update var val a) doms1 of
                      Inl e \<Rightarrow> Inl e
                    | Inr (result, a2, doms2) \<Rightarrow>
                        if truthy result then Inr (result, a2, doms2)
                        else
                          (case delitem a2 var of
                             Inl e \<Rightarrow> Inl e
                           | Inr a3 \<Rightarrow> try_values cw var vals a3 doms))
                 else
                   (case delitem (AList.update var val a) var of
                      Inl e \<Rightarrow> Inl e
                    | Inr a3 \<Rightarrow> try_values cw var vals a3 doms))
          else try_values cw var vals a doms) = Inr (res, a', d')"
    by (simp add: try_values.psimps)
  then obtain ok where c: "consistent cw (AList.update var val a) = Inr ok"
    by (auto split: sum.splits)
  show ?case
  proof (cases ok)
    case False
    with eq c have "try_values cw var vals a doms = Inr (res, a', d')" by simp
    from "3.IH"(4)[OF c False this] show ?thesis .
  next
    case True
    with eq c obtain ac3_ok doms1 where ac: "ac3 cw None doms = Inr (ac3_ok, doms1)"
      by (auto split: sum.splits)
    show ?thesis
    proof (cases ac3_ok)
      case False
      with eq c True ac obtain a3 where
        d: "delitem (AList.update var val a) var = Inr a3" and
        tv: "try_values cw var vals a3 doms = Inr (res, a', d')"
        by (auto split: sum.splits)
      from "3.IH"(3)[OF c True ac refl False d tv] delitem_keys[OF d]
      show ?thesis unfolding AList.dom_update by (rule keys_sub2)
    next
      case ok: True
      with eq c True ac obtain result a2 doms2 where
        bt: "backtrack cw (AList.update var val a) doms1 = Inr (result, a2, doms2)"
        by (auto split: sum.splits)
      from "3.IH"(1)[OF c True ac refl ok bt]
      have k2: "fst ` set (AList.update var val a) \<subseteq> fst ` set a2" .
      show ?thesis
      proof (cases "truthy result")
        case True
        with eq c \<open>ok\<close> ac ok bt have "a' = a2" by simp
        with k2 show ?thesis unfolding AList.dom_update by (simp add: keys_sub3)
      next
        case False
        with eq c \<open>ok\<close> ac ok bt obtain a3 where
          d: "delitem a2 var = Inr a3" and
          tv: "try_values cw var vals a3 doms = Inr (res, a', d')"
          by (auto split: sum.splits)
        from "3.IH"(2)[OF c True ac refl ok bt refl refl False d tv] delitem_keys[OF d] k2
        show ?thesis unfolding AList.dom_update by (rule keys_sub4)
      qed
    qed
  qed
qed


definition unassigned_count :: "crossword \<Rightarrow> assignment \<Rightarrow> variable set \<Rightarrow> nat" where
  "unassigned_count cw a extra = card (set (variables cw) - fst ` set a - extra)"

lemma unassigned_count_select:
  assumes "var \<in> set (variables cw)" "var \<notin> fst ` set a"
  shows "unassigned_count cw a {var} < unassigned_count cw a {}"
proof -
  have "set (variables cw) - fst ` set a - {var} \<subset> set (variables cw) - fst ` set a - {}"
    using assms by blast
  then show ?thesis
    unfolding unassigned_count_def by (intro psubset_card_mono) simp_all
qed

lemma unassigned_count_update:
  "unassigned_count cw (AList.update var val a) {} = unassigned_count cw a {var}"
proof -
  have "set (variables cw) - ({var} \<union> fst ` set a) - {} = set (variables cw) - fst ` set a - {var}"
    by blast
  then show ?thesis by (simp add: unassigned_count_def AList.dom_update)
qed

lemma unassigned_count_mono:
  assumes "fst ` set a - {var} \<subseteq> fst ` set a3"
  shows "unassigned_count cw a3 {var} \<le> unassigned_count cw a {var}"
proof -
  have "set (variables cw) - fst ` set a3 - {var} \<subseteq> set (variables cw) - fst ` set a - {var}"
    using assms by blast
  then show ?thesis
    unfolding unassigned_count_def by (intro card_mono) simp_all
qed

lemma keys_sub5: "A3 = A2 - {v} \<Longrightarrow> {v} \<union> A \<subseteq> A2 \<Longrightarrow> A - {v} \<subseteq> A3"
  by blast

lemma keys_sub6: "A3 = ({v} \<union> A) - {v} \<Longrightarrow> A - {v} \<subseteq> A3"
  by blast

definition bt_unassigned ::
  "crossword \<times> assignment \<times> domains + crossword \<times> variable \<times> string list \<times> assignment \<times> domains
     \<Rightarrow> nat" where
  "bt_unassigned s =
     (case s of
        Inl (cw, a, doms) \<Rightarrow> unassigned_count cw a {}
      | Inr (cw, var, vals, a, doms) \<Rightarrow> unassigned_count cw a {var})"

definition bt_pending ::
  "crossword \<times> assignment \<times> domains + crossword \<times> variable \<times> string list \<times> assignment \<times> domains
     \<Rightarrow> nat" where
  "bt_pending s =
     (case s of
        Inl (cw, a, doms) \<Rightarrow> 0
      | Inr (cw, var, vals, a, doms) \<Rightarrow> Suc (length vals))"

termination backtrack
proof (relation "measures [bt_unassigned, bt_pending]")
  show "wf (measures [bt_unassigned, bt_pending])" by simp
next
  fix cw a doms var vals
  assume "select_unassigned_variable cw a doms = Inr var"
  from select_unassigned_variable_mem[OF this]
  have "unassigned_count cw a {var} < unassigned_count cw a {}"
    by (intro unassigned_count_select) simp_all
  then show "(Inr (cw, var, vals, a, doms), Inl (cw, a, doms)) \<in> measures [bt_unassigned, bt_pending]"
    by (simp add: bt_unassigned_def)
next
  fix cw var val vals a doms and doms1 :: domains
  show "(Inl (cw, AList.update var val a, doms1), Inr (cw, var, val # vals, a, doms))
          \<in> measures [bt_unassigned, bt_pending]"
    by (simp add: bt_unassigned_def bt_pending_def unassigned_count_update)
next
  fix cw :: crossword and var :: variable and val :: string and vals :: "string list"
    and a a2 a3 :: assignment and doms doms1 doms2 :: domains and bb result ya
  assume bt: "backtrack cw (AList.update var val a) doms1 = Inr bb"
    and "(result, ya) = bb" "(a2, doms2) = ya"
    and d: "delitem a2 var = Inr a3"
    and dom: "backtrack_try_values_dom (Inl (cw, AList.update var val a, doms1))"
  then have "backtrack cw (AList.update var val a) doms1 = Inr (result, a2, doms2)" by auto
  from backtrack_keys_partial(1)[OF dom this]
  have "{var} \<union> fst ` set a \<subseteq> fst ` set a2" by (simp only: AList.dom_update)
  with delitem_keys[OF d] have "fst ` set a - {var} \<subseteq> fst ` set a3" by (rule keys_sub5)
  then have "unassigned_count cw a3 {var} \<le> unassigned_count cw a {var}"
    by (rule unassigned_count_mono)
  then show "(Inr (cw, var, vals, a3, doms), Inr (cw, var, val # vals, a, doms))
          \<in> measures [bt_unassigned, bt_pending]"
    by (auto simp: bt_unassigned_def bt_pending_def)
next
  fix cw :: crossword and var :: variable and val :: string and vals :: "string list"
    and a a3 :: assignment and doms :: domains
  assume d: "delitem (AList.update var val a) var = Inr a3"
  from delitem_keys[OF d] have "fst ` set a - {var} \<subseteq> fst ` set a3"
    unfolding AList.dom_update by (rule keys_sub6)
  then have "unassigned_count cw a3 {var} \<le> unassigned_count cw a {var}"
    by (rule unassigned_count_mono)
  then show "(Inr (cw, var, vals, a3, doms), Inr (cw, var, val # vals, a, doms))
          \<in> measures [bt_unassigned, bt_pending]"
    by (auto simp: bt_unassigned_def bt_pending_def)
next
  fix cw var val vals a doms
  show "(Inr (cw, var, vals, a, doms), Inr (cw, var, val # vals, a, doms))
          \<in> measures [bt_unassigned, bt_pending]"
    by (simp add: bt_unassigned_def bt_pending_def)
qed



text \<open>\<open>solve\<close> ignores what the first \<open>ac3\<close> returns; it returns the result of
  \<open>backtrack(dict())\<close>, and \<open>self.domains\<close> is left as the search leaves it.\<close>

definition solve :: "crossword \<Rightarrow> domains \<Rightarrow> error + assignment option \<times> domains" where
  "solve cw doms =
     (case enforce_node_consistency cw doms of
        Inl e \<Rightarrow> Inl e
      | Inr doms1 \<Rightarrow>
          (case ac3 cw None doms1 of
             Inl e \<Rightarrow> Inl e
           | Inr (ac3_ok, doms2) \<Rightarrow>
               (case backtrack cw [] doms2 of
                  Inl e \<Rightarrow> Inl e
                | Inr (result, a, doms3) \<Rightarrow> Inr (result, doms3))))"


subsection \<open>Predicates of the specification\<close>

text \<open>The current candidate words of a slot (none when the slot is not a key).\<close>

definition domain_of :: "domains \<Rightarrow> variable \<Rightarrow> string list" where
  "domain_of doms v = (case map_of doms v of None \<Rightarrow> [] | Some d \<Rightarrow> d)"

text \<open>Every word left for a slot has the length of the slot.\<close>

definition node_consistent :: "crossword \<Rightarrow> domains \<Rightarrow> bool" where
  "node_consistent cw doms \<longleftrightarrow>
     (\<forall>v \<in> set (variables cw). \<forall>w \<in> set (domain_of doms v). length w = length_v v)"

text \<open>The first domain state has the keys of the second and no word the second lacks.\<close>

definition doms_le :: "domains \<Rightarrow> domains \<Rightarrow> bool" where
  "doms_le doms' doms \<longleftrightarrow>
     map fst doms' = map fst doms \<and> (\<forall>v. set (domain_of doms' v) \<subseteq> set (domain_of doms v))"

text \<open>
  The word \<open>w\<close> has a partner in y's domain: some word there has as letter \<open>j\<close> the
  letter \<open>i\<close> of \<open>w\<close>.
\<close>

definition supported :: "domains \<Rightarrow> variable \<Rightarrow> nat \<Rightarrow> nat \<Rightarrow> string \<Rightarrow> bool" where
  "supported doms y i j w \<longleftrightarrow>
     (\<exists>wy \<in> set (domain_of doms y). i < length w \<and> j < length wy \<and> w ! i = wy ! j)"

text \<open>
  What the specification says of the puzzle model: the slots are distinct; an overlap is
  defined for crossing pairs of distinct slots only, is the same read in both directions,
  and indexes letters inside the two slots; the neighbours of a slot are the slots that
  cross it.
\<close>

definition wf_crossword :: "crossword \<Rightarrow> bool" where
  "wf_crossword cw \<longleftrightarrow>
     distinct (variables cw) \<and>
     (\<forall>x y i j. overlaps cw (x, y) = Some (i, j) \<longrightarrow>
        x \<in> set (variables cw) \<and> y \<in> set (variables cw) \<and> x \<noteq> y \<and>
        overlaps cw (y, x) = Some (j, i) \<and> i < length_v x \<and> j < length_v y) \<and>
     (\<forall>x \<in> set (variables cw). set (neighbors cw x) = {y. overlaps cw (y, x) \<noteq> None})"

text \<open>
  The arc \<open>(x, y)\<close> needs no revision: x is a key, every word of x can be indexed and
  has a partner in y's domain. A pair without overlap is no arc.
\<close>

definition arc_ok :: "crossword \<Rightarrow> domains \<Rightarrow> variable \<Rightarrow> variable \<Rightarrow> bool" where
  "arc_ok cw doms x y \<longleftrightarrow>
     (case overlaps cw (x, y) of
        None \<Rightarrow> True
      | Some (i, j) \<Rightarrow>
          has_key doms x \<and>
          (\<forall>w \<in> set (domain_of doms x). supported doms y i j w \<and> has_key doms y))"

text \<open>Arc consistency as the specification states it.\<close>

definition arc_consistent :: "crossword \<Rightarrow> domains \<Rightarrow> bool" where
  "arc_consistent cw doms \<longleftrightarrow>
     (\<forall>X \<in> set (variables cw). \<forall>Y \<in> set (neighbors cw X). \<forall>i j.
        overlaps cw (X, Y) = Some (i, j) \<longrightarrow>
        (\<forall>wx \<in> set (domain_of doms X). \<exists>wy \<in> set (domain_of doms Y).
           i < length wx \<and> j < length wy \<and> wx ! i = wy ! j))"

text \<open>
  The domain states of the search: every slot is a key, and its words are vocabulary words
  of its length.
\<close>

definition domains_ok :: "crossword \<Rightarrow> domains \<Rightarrow> bool" where
  "domains_ok cw doms \<longleftrightarrow>
     (\<forall>v \<in> set (variables cw). has_key doms v \<and>
        (\<forall>w \<in> set (domain_of doms v). length w = length_v v \<and> w \<in> set (words cw)))"

text \<open>
  The assignments of the search: a dict (no key twice) from slots to vocabulary words of
  the slot's length.
\<close>

definition assignment_ok :: "crossword \<Rightarrow> assignment \<Rightarrow> bool" where
  "assignment_ok cw a \<longleftrightarrow>
     distinct (map fst a) \<and>
     (\<forall>(v, w) \<in> set a. v \<in> set (variables cw) \<and> length w = length_v v \<and> w \<in> set (words cw))"

text \<open>
  A complete assignment that satisfies every constraint: each slot has a vocabulary word
  of its length, different slots have different words, and the letters agree at every
  overlap.
\<close>

definition solution :: "crossword \<Rightarrow> assignment \<Rightarrow> bool" where
  "solution cw a \<longleftrightarrow>
     (\<forall>v \<in> set (variables cw). \<exists>w. map_of a v = Some w \<and> length w = length_v v \<and> w \<in> set (words cw)) \<and>
     (\<forall>v \<in> set (variables cw). \<forall>v' \<in> set (variables cw). v \<noteq> v' \<longrightarrow> map_of a v \<noteq> map_of a v') \<and>
     (\<forall>x y i j wx wy. overlaps cw (x, y) = Some (i, j) \<longrightarrow> map_of a x = Some wx \<longrightarrow>
        map_of a y = Some wy \<longrightarrow> i < length wx \<and> j < length wy \<and> wx ! i = wy ! j)"

text \<open>The domains still hold the words of the solution \<open>s\<close>.\<close>

definition sol_in :: "crossword \<Rightarrow> assignment \<Rightarrow> domains \<Rightarrow> bool" where
  "sol_in cw s doms \<longleftrightarrow>
     (\<forall>v \<in> set (variables cw). \<forall>w. map_of s v = Some w \<longrightarrow> w \<in> set (domain_of doms v))"

subsection \<open>Two concrete puzzles\<close>

text \<open>
  An ACROSS slot in row 2 and a DOWN slot in column 0, both of length 3, cross in the cell
  (2, 0): letter 0 of the across word is letter 2 of the down word. The second puzzle has
  the across slot alone and no word of its length.
\<close>

definition slot_across :: variable where "slot_across = Variable 2 0 ACROSS 3"
definition slot_down :: variable where "slot_down = Variable 0 0 DOWN 3"

definition cw_cross :: crossword where
  "cw_cross =
     \<lparr>variables = [slot_across, slot_down],
      words = [''cat'', ''dog'', ''tea'', ''go''],
      overlaps = (\<lambda>p. if p = (slot_across, slot_down) then Some (0, 2)
                        else if p = (slot_down, slot_across) then Some (2, 0) else None),
      neighbors = (\<lambda>v. if v = slot_across then [slot_down]
                         else if v = slot_down then [slot_across] else [])\<rparr>"

definition cw_single :: crossword where
  "cw_single =
     \<lparr>variables = [slot_across], words = [''go''], overlaps = (\<lambda>p. None),
      neighbors = (\<lambda>v. [])\<rparr>"

section \<open>Basic facts\<close>

declare backtrack.simps [simp del] try_values.simps [simp del]

lemma lookup_Inr: "lookup d k = Inr v \<longleftrightarrow> map_of d k = Some v"
  by (simp add: lookup_def split: option.splits)

lemma lookup_domain_of: "lookup doms v = Inr d \<Longrightarrow> domain_of doms v = d"
  by (simp add: lookup_Inr domain_of_def)

lemma map_of_keys: "map_of d k = Some v \<Longrightarrow> k \<in> set (map fst d)"
  by (induction d) (auto split: if_splits)

lemma update_present_keys: "map_of d k = Some v \<Longrightarrow> map fst (AList.update k v' d) = map fst d"
  using map_of_keys[of d k v] by (simp add: AList.update_keys)

lemma domain_of_update:
  "domain_of (AList.update x d doms) v = (if v = x then d else domain_of doms v)"
  by (simp add: domain_of_def AList.update_conv')

lemma doms_le_refl: "doms_le doms doms"
  by (simp add: doms_le_def)

lemma doms_le_trans: "doms_le d3 d2 \<Longrightarrow> doms_le d2 d1 \<Longrightarrow> doms_le d3 d1"
  unfolding doms_le_def by (metis subset_trans)

lemma doms_le_update:
  assumes "lookup doms x = Inr dx" "set d \<subseteq> set dx"
  shows "doms_le (AList.update x d doms) doms"
proof -
  from assms(1) have m: "map_of doms x = Some dx" by (simp add: lookup_Inr)
  then have "domain_of doms x = dx" by (simp add: domain_of_def)
  with assms(2) update_present_keys[OF m] show ?thesis
    by (simp add: doms_le_def domain_of_update)
qed

lemma set_set_minus: "set (set_minus s t) \<subseteq> set s"
  by (simp add: set_minus_def)

lemma enforce_loop_le: "enforce_loop vs doms = Inr doms' \<Longrightarrow> doms_le doms' doms"
proof (induction vs arbitrary: doms)
  case Nil
  then show ?case by (simp add: doms_le_refl)
next
  case (Cons var vs)
  from Cons.prems obtain d where d: "lookup doms var = Inr d"
    and r: "enforce_loop vs
       (AList.update var (set_minus d (filter (\<lambda>word. length word \<noteq> length_v var) d)) doms) = Inr doms'"
    by (auto split: sum.splits)
  from Cons.IH[OF r] doms_le_update[OF d set_set_minus] show ?case
    by (rule doms_le_trans)
qed

lemma revise_le: "revise cw x y doms = Inr (b, doms') \<Longrightarrow> doms_le doms' doms"
  by (auto simp: revise_def doms_le_refl doms_le_update set_set_minus
      split: option.splits sum.splits prod.splits if_splits)

lemma ac3_loop_le: "ac3_loop cw queue doms = Inr (b, doms') \<Longrightarrow> doms_le doms' doms"
proof (induction cw queue doms rule: ac3_loop.induct)
  case (1 cw doms)
  then show ?case by (simp add: doms_le_refl)
next
  case (2 cw x y queue doms)
  from "2.prems" obtain revised d1 where r: "revise cw x y doms = Inr (revised, d1)"
    by (auto split: sum.splits)
  note le1 = revise_le[OF r]
  show ?case
  proof (cases revised)
    case False
    with "2.prems" r have "ac3_loop cw queue d1 = Inr (b, doms')" by simp
    from "2.IH"(2)[OF r refl False this] le1 show ?thesis by (rule doms_le_trans)
  next
    case True
    with "2.prems" r obtain dx where dx: "lookup d1 x = Inr dx"
      by (auto split: sum.splits)
    show ?thesis
    proof (cases "dx = []")
      case True
      with "2.prems" r \<open>revised\<close> dx have "doms' = d1" by simp
      with le1 show ?thesis by simp
    next
      case False
      with "2.prems" r \<open>revised\<close> dx have
        "ac3_loop cw (queue @ map (\<lambda>z. (z, x)) (filter (\<lambda>z. z \<noteq> y) (neighbors cw x))) d1 = Inr (b, doms')"
        by simp
      from "2.IH"(1)[OF r refl \<open>revised\<close> dx False this] le1 show ?thesis by (rule doms_le_trans)
    qed
  qed
qed

lemma ac3_le: "ac3 cw arcs doms = Inr (b, doms') \<Longrightarrow> doms_le doms' doms"
  by (auto simp: ac3_def split: option.splits dest: ac3_loop_le)

lemma backtrack_cases:
  assumes "backtrack cw a doms = Inr R"
  obtains (complete) "assignment_complete cw a" "R = (Some a, a, doms)"
  | (search) var vals where "\<not> assignment_complete cw a"
      "select_unassigned_variable cw a doms = Inr var"
      "order_domain_values cw var a doms = Inr vals"
      "try_values cw var vals a doms = Inr R"
  using assms by (auto simp: backtrack.simps split: if_splits sum.splits)

lemma try_values_cases:
  assumes "try_values cw var (val # vals) a doms = Inr R"
  obtains (inconsistent) "consistent cw (AList.update var val a) = Inr False"
      "try_values cw var vals a doms = Inr R"
  | (arc_fail) d1 a3 where "consistent cw (AList.update var val a) = Inr True"
      "ac3 cw None doms = Inr (False, d1)"
      "delitem (AList.update var val a) var = Inr a3"
      "try_values cw var vals a3 doms = Inr R"
  | (found) d1 result a2 d2 where "consistent cw (AList.update var val a) = Inr True"
      "ac3 cw None doms = Inr (True, d1)"
      "backtrack cw (AList.update var val a) d1 = Inr (result, a2, d2)"
      "truthy result" "R = (result, a2, d2)"
  | (retry) d1 result a2 d2 a3 where "consistent cw (AList.update var val a) = Inr True"
      "ac3 cw None doms = Inr (True, d1)"
      "backtrack cw (AList.update var val a) d1 = Inr (result, a2, d2)"
      "\<not> truthy result" "delitem a2 var = Inr a3"
      "try_values cw var vals a3 doms = Inr R"
proof -
  from assms obtain ok where c: "consistent cw (AList.update var val a) = Inr ok"
    by (auto simp: try_values.simps split: sum.splits)
  show thesis
  proof (cases ok)
    case False
    with assms c inconsistent show thesis by (simp add: try_values.simps)
  next
    case True
    with assms c obtain prop_ok d1 where ac: "ac3 cw None doms = Inr (prop_ok, d1)"
      by (auto simp: try_values.simps split: sum.splits)
    show thesis
    proof (cases prop_ok)
      case False
      with assms c True ac arc_fail show thesis
        by (auto simp: try_values.simps split: sum.splits)
    next
      case ok2: True
      with assms c True ac obtain result a2 d2 where
        bt: "backtrack cw (AList.update var val a) d1 = Inr (result, a2, d2)"
        by (auto simp: try_values.simps split: sum.splits)
      show thesis
      proof (cases "truthy result")
        case True
        with assms c \<open>ok\<close> ac ok2 bt have "R = (result, a2, d2)"
          by (simp add: try_values.simps)
        with c \<open>ok\<close> ac ok2 bt True found show thesis by simp
      next
        case False
        with assms c \<open>ok\<close> ac ok2 bt retry show thesis
          by (auto simp: try_values.simps split: sum.splits)
      qed
    qed
  qed
qed



lemma backtrack_induct [case_names backtrack nil cons]:
  fixes P :: "crossword \<Rightarrow> assignment \<Rightarrow> domains \<Rightarrow> bool"
    and Q :: "crossword \<Rightarrow> variable \<Rightarrow> string list \<Rightarrow> assignment \<Rightarrow> domains \<Rightarrow> bool"
  assumes bt: "\<And>cw a doms.
      (\<And>var vals. \<not> assignment_complete cw a \<Longrightarrow>
          select_unassigned_variable cw a doms = Inr var \<Longrightarrow>
          order_domain_values cw var a doms = Inr vals \<Longrightarrow> Q cw var vals a doms)
      \<Longrightarrow> P cw a doms"
    and nil: "\<And>cw var a doms. Q cw var [] a doms"
    and cons: "\<And>cw var val vals a doms.
      (\<And>d1. consistent cw (AList.update var val a) = Inr True \<Longrightarrow>
          ac3 cw None doms = Inr (True, d1) \<Longrightarrow> P cw (AList.update var val a) d1) \<Longrightarrow>
      (\<And>d1 result a2 d2 a3. consistent cw (AList.update var val a) = Inr True \<Longrightarrow>
          ac3 cw None doms = Inr (True, d1) \<Longrightarrow>
          backtrack cw (AList.update var val a) d1 = Inr (result, a2, d2) \<Longrightarrow>
          \<not> truthy result \<Longrightarrow> delitem a2 var = Inr a3 \<Longrightarrow> Q cw var vals a3 doms) \<Longrightarrow>
      (\<And>d1 a3. consistent cw (AList.update var val a) = Inr True \<Longrightarrow>
          ac3 cw None doms = Inr (False, d1) \<Longrightarrow>
          delitem (AList.update var val a) var = Inr a3 \<Longrightarrow> Q cw var vals a3 doms) \<Longrightarrow>
      (consistent cw (AList.update var val a) = Inr False \<Longrightarrow> Q cw var vals a doms) \<Longrightarrow>
      Q cw var (val # vals) a doms"
  shows "P cw a doms" and "Q cw var vals a doms"
proof (induction cw a doms and cw var vals a doms rule: backtrack_try_values.induct)
  case (1 cw a doms)
  show ?case by (rule bt) (rule 1)
next
  case (2 cw var a doms)
  show ?case by (rule nil)
next
  case (3 cw var val vals a doms)
  show ?case
  proof (rule cons)
    fix d1
    assume "consistent cw (AList.update var val a) = Inr True" "ac3 cw None doms = Inr (True, d1)"
    then show "P cw (AList.update var val a) d1"
      by (intro "3.IH"(1)[of True "(True, d1)" True d1]) simp_all
  next
    fix d1 result a2 d2 a3
    assume "consistent cw (AList.update var val a) = Inr True" "ac3 cw None doms = Inr (True, d1)"
      "backtrack cw (AList.update var val a) d1 = Inr (result, a2, d2)"
      "\<not> truthy result" "delitem a2 var = Inr a3"
    then show "Q cw var vals a3 doms"
      by (intro "3.IH"(2)[of True "(True, d1)" True d1 "(result, a2, d2)" result "(a2, d2)" a2 d2 a3])
        simp_all
  next
    fix d1 a3
    assume "consistent cw (AList.update var val a) = Inr True" "ac3 cw None doms = Inr (False, d1)"
      "delitem (AList.update var val a) var = Inr a3"
    then show "Q cw var vals a3 doms"
      by (intro "3.IH"(3)[of True "(False, d1)" False d1 a3]) simp_all
  next
    assume "consistent cw (AList.update var val a) = Inr False"
    then show "Q cw var vals a doms"
      by (intro "3.IH"(4)[of False]) simp_all
  qed
qed

lemma backtrack_le:
  "backtrack cw a doms = Inr (res, a', d') \<Longrightarrow> doms_le d' doms"
  "try_values cw var vals a doms = Inr (res, a', d') \<Longrightarrow> doms_le d' doms"
proof (induction cw a doms and cw var vals a doms arbitrary: res a' d' and res a' d'
    rule: backtrack_induct)
  case (backtrack cw a doms)
  from backtrack.prems show ?case
  proof (cases rule: backtrack_cases)
    case complete
    then show ?thesis by (simp add: doms_le_refl)
  next
    case (search var vals)
    then show ?thesis by (rule backtrack.IH)
  qed
next
  case (nil cw var a doms)
  then show ?case by (simp add: try_values.simps doms_le_refl)
next
  case (cons cw var val vals a doms)
  from cons.prems show ?case
  proof (cases rule: try_values_cases)
    case inconsistent
    then show ?thesis by (rule cons.IH(4))
  next
    case (arc_fail d1 a3)
    then show ?thesis by (rule cons.IH(3))
  next
    case (found d1 result a2 d2)
    from cons.IH(1)[OF found(1,2)] found(3,5) have "doms_le d' d1" by simp
    with ac3_le[OF found(2)] show ?thesis by (rule doms_le_trans[rotated])
  next
    case (retry d1 result a2 d2 a3)
    then show ?thesis by (rule cons.IH(2))
  qed
qed



lemma node_consistent_le: "doms_le d' d \<Longrightarrow> node_consistent cw d \<Longrightarrow> node_consistent cw d'"
  unfolding doms_le_def node_consistent_def by blast

lemma enforce_loop_lengths:
  "enforce_loop vs doms = Inr doms' \<Longrightarrow>
     \<forall>v \<in> set vs. \<forall>w \<in> set (domain_of doms' v). length w = length_v v"
proof (induction vs arbitrary: doms)
  case Nil
  then show ?case by simp
next
  case (Cons var vs)
  define d1 where "d1 = AList.update var
      (set_minus (domain_of doms var) (filter (\<lambda>word. length word \<noteq> length_v var) (domain_of doms var))) doms"
  from Cons.prems have r: "enforce_loop vs d1 = Inr doms'"
    by (auto simp: d1_def lookup_domain_of split: sum.splits)
  have "\<forall>w \<in> set (domain_of d1 var). length w = length_v var"
    by (auto simp: d1_def domain_of_update set_minus_def)
  moreover from enforce_loop_le[OF r] have "set (domain_of doms' var) \<subseteq> set (domain_of d1 var)"
    by (simp add: doms_le_def)
  ultimately have "\<forall>w \<in> set (domain_of doms' var). length w = length_v var" by blast
  with Cons.IH[OF r] show ?case by simp
qed

lemma enforce_node_consistency_node_consistent:
  "enforce_node_consistency cw doms = Inr doms' \<Longrightarrow> node_consistent cw doms'"
  unfolding enforce_node_consistency_def node_consistent_def by (rule enforce_loop_lengths)

lemma lookup_present: "k \<in> fst ` set d \<Longrightarrow> \<exists>v. lookup d k = Inr v"
  by (cases "map_of d k") (auto simp: lookup_def map_of_eq_None_iff)

lemma enforce_loop_returns:
  "set vs \<subseteq> fst ` set doms \<Longrightarrow> \<exists>doms'. enforce_loop vs doms = Inr doms'"
proof (induction vs arbitrary: doms)
  case Nil
  then show ?case by simp
next
  case (Cons var vs)
  from Cons.prems have "var \<in> fst ` set doms" by simp
  from lookup_present[OF this] obtain d where d: "lookup doms var = Inr d" by blast
  let ?d1 = "AList.update var (set_minus d (filter (\<lambda>word. length word \<noteq> length_v var) d)) doms"
  from Cons.prems have "set vs \<subseteq> fst ` set ?d1" by (auto simp: AList.dom_update)
  from Cons.IH[OF this] d show ?case by simp
qed

lemma enforce_node_consistency_returns:
  "\<exists>doms'. enforce_node_consistency cw (CrosswordCreator cw) = Inr doms'"
  unfolding enforce_node_consistency_def
  by (rule enforce_loop_returns) (force simp: CrosswordCreator_def)

lemma backtrack_None_restores:
  "backtrack cw a doms = Inr (None, a', d') \<Longrightarrow> d' = doms"
  "try_values cw var vals a doms = Inr (None, a', d') \<Longrightarrow> d' = doms"
proof (induction cw a doms and cw var vals a doms arbitrary: a' d' and a' d'
    rule: backtrack_induct)
  case (backtrack cw a doms)
  from backtrack.prems show ?case
  proof (cases rule: backtrack_cases)
    case complete
    then show ?thesis by simp
  next
    case (search var vals)
    then show ?thesis by (rule backtrack.IH)
  qed
next
  case (nil cw var a doms)
  then show ?case by (simp add: try_values.simps)
next
  case (cons cw var val vals a doms)
  from cons.prems show ?case
  proof (cases rule: try_values_cases)
    case inconsistent
    then show ?thesis by (rule cons.IH(4))
  next
    case (arc_fail d1 a3)
    then show ?thesis by (rule cons.IH(3))
  next
    case (found d1 result a2 d2)
    then show ?thesis by (simp add: truthy_def)
  next
    case (retry d1 result a2 d2 a3)
    then show ?thesis by (rule cons.IH(2))
  qed
qed

lemma solve_le: "solve cw doms = Inr (res, d') \<Longrightarrow> doms_le d' doms"
proof -
  assume "solve cw doms = Inr (res, d')"
  then obtain d1 ok d2 a' where
    e: "enforce_node_consistency cw doms = Inr d1" and
    a: "ac3 cw None d1 = Inr (ok, d2)" and
    b: "backtrack cw [] d2 = Inr (res, a', d')"
    by (auto simp: solve_def split: sum.splits prod.splits)
  from e have "doms_le d1 doms"
    unfolding enforce_node_consistency_def by (rule enforce_loop_le)
  with ac3_le[OF a] have "doms_le d2 doms" by (rule doms_le_trans)
  with backtrack_le(1)[OF b] show ?thesis by (rule doms_le_trans)
qed

lemma any_match_Inr:
  "any_match w i j dy = Inr m \<Longrightarrow>
     m = (\<exists>wy \<in> set dy. i < length w \<and> j < length wy \<and> w ! i = wy ! j)"
  by (induction dy) (auto simp: getitem_def split: if_splits)

lemma any_match_returns:
  "i < length w \<Longrightarrow> \<forall>wy \<in> set dy. j < length wy \<Longrightarrow> \<exists>m. any_match w i j dy = Inr m"
  by (induction dy) (auto simp: getitem_def)

lemma revise_loop_Inr:
  "revise_loop doms y i j dx (rem, rv) = Inr (rem', rv') \<Longrightarrow>
     rem' = rem @ filter (\<lambda>w. \<not> supported doms y i j w) dx \<and>
     (rv' \<longleftrightarrow> rv \<or> (\<exists>w \<in> set dx. \<not> supported doms y i j w))"
proof (induction dx arbitrary: rem rv)
  case Nil
  then show ?case by simp
next
  case (Cons w dx)
  from Cons.prems obtain dy m where dy: "lookup doms y = Inr dy"
    and m: "any_match w i j dy = Inr m"
    by (auto split: sum.splits)
  from any_match_Inr[OF m] lookup_domain_of[OF dy] have ms: "m = supported doms y i j w"
    by (simp add: supported_def)
  show ?case
  proof (cases m)
    case True
    with Cons.prems dy m have "revise_loop doms y i j dx (rem, rv) = Inr (rem', rv')" by simp
    from Cons.IH[OF this] True ms show ?thesis by simp
  next
    case False
    with Cons.prems dy m have "revise_loop doms y i j dx (rem @ [w], True) = Inr (rem', rv')"
      by simp
    from Cons.IH[OF this] False ms show ?thesis by auto
  qed
qed

lemma revise_loop_returns:
  assumes "dx = [] \<or> has_key doms y" "\<forall>w \<in> set dx. i < length w"
    "\<forall>wy \<in> set (domain_of doms y). j < length wy"
  shows "\<exists>r. revise_loop doms y i j dx st = Inr r"
  using assms
proof (induction dx arbitrary: st)
  case Nil
  then show ?case by simp
next
  case (Cons w dx)
  from Cons.prems(1) have "y \<in> fst ` set doms" by (simp add: has_key_iff)
  from lookup_present[OF this] obtain dy where dy: "lookup doms y = Inr dy" by blast
  with Cons.prems(3) have "\<forall>wy \<in> set dy. j < length wy" by (simp add: lookup_domain_of)
  with Cons.prems(2) any_match_returns[of i w dy j] obtain m where m: "any_match w i j dy = Inr m"
    by auto
  from Cons.prems have hk: "dx = [] \<or> has_key doms y" by simp
  obtain rem rv where st: "st = (rem, rv)" by (cases st)
  from Cons.IH[OF hk, of "(rem @ [w], True)"] Cons.IH[OF hk, of "(rem, rv)"] Cons.prems(2,3) dy m st
  show ?case by auto
qed

lemma set_minus_filter: "set_minus dx (filter (\<lambda>w. \<not> P w) dx) = filter P dx"
  unfolding set_minus_def by (rule filter_cong) auto

lemma filter_changed: "(\<exists>w \<in> set dx. \<not> P w) \<longleftrightarrow> filter P dx \<noteq> dx"
  by (simp add: filter_id_conv)

text \<open>What a successful call of revise on a crossing pair has done.\<close>

lemma revise_Some:
  assumes "overlaps cw (x, y) = Some (i, j)" "revise cw x y doms = Inr (b, doms')"
  shows "\<exists>dx. lookup doms x = Inr dx \<and>
           (b \<longleftrightarrow> filter (supported doms y i j) dx \<noteq> dx) \<and>
           doms' = (if b then AList.update x (filter (supported doms y i j) dx) doms else doms)"
proof -
  from assms obtain dx rem rv where dx: "lookup doms x = Inr dx"
    and lp: "revise_loop doms y i j dx ([], False) = Inr (rem, rv)"
    and res: "(b, doms') = (if rv then (True, AList.update x (set_minus dx rem) doms) else (False, doms))"
    by (auto simp: revise_def split: sum.splits prod.splits if_splits)
  from revise_loop_Inr[OF lp] have rem: "rem = filter (\<lambda>w. \<not> supported doms y i j w) dx"
    and rv: "rv \<longleftrightarrow> filter (supported doms y i j) dx \<noteq> dx"
    by (simp_all add: filter_changed)
  from res rem rv dx show ?thesis
    by (auto simp: set_minus_filter split: if_splits)
qed

lemma revise_None: "overlaps cw (x, y) = None \<Longrightarrow> revise cw x y doms = Inr (False, doms)"
  by (simp add: revise_def)

lemma revise_returns:
  assumes "overlaps cw (x, y) = Some (i, j)" "has_key doms x"
    "domain_of doms x = [] \<or> has_key doms y"
    "\<forall>w \<in> set (domain_of doms x). i < length w"
    "\<forall>wy \<in> set (domain_of doms y). j < length wy"
  shows "\<exists>b doms'. revise cw x y doms = Inr (b, doms')"
proof -
  from assms(2) have "x \<in> fst ` set doms" by (simp add: has_key_iff)
  from lookup_present[OF this] obtain dx where dx: "lookup doms x = Inr dx" by blast
  then have "domain_of doms x = dx" by (rule lookup_domain_of)
  with assms(3,4,5) revise_loop_returns[of dx doms y i j "([], False)"]
  obtain r where "revise_loop doms y i j dx ([], False) = Inr r" by auto
  with assms(1) dx show ?thesis
    by (cases r) (auto simp: revise_def)
qed

lemma domain_of_revise:
  assumes "overlaps cw (x, y) = Some (i, j)" "revise cw x y doms = Inr (b, doms')"
  shows "domain_of doms' v =
           (if v = x then filter (supported doms y i j) (domain_of doms x) else domain_of doms v)"
proof -
  from revise_Some[OF assms] obtain dx where dx: "lookup doms x = Inr dx"
    and b: "b \<longleftrightarrow> filter (supported doms y i j) dx \<noteq> dx"
    and d: "doms' = (if b then AList.update x (filter (supported doms y i j) dx) doms else doms)"
    by blast
  from dx have "domain_of doms x = dx" by (rule lookup_domain_of)
  with b d show ?thesis by (auto simp: domain_of_update)
qed

lemma has_key_le: "doms_le doms' doms \<Longrightarrow> has_key doms' v = has_key doms v"
  unfolding doms_le_def has_key_iff by (metis set_map)


lemma domain_of_nonempty_has_key: "w \<in> set (domain_of doms v) \<Longrightarrow> has_key doms v"
  by (cases "map_of doms v") (simp_all add: domain_of_def has_key_def)

lemma lookup_has_key: "lookup doms v = Inr d \<Longrightarrow> has_key doms v"
  by (simp add: lookup_Inr has_key_def)

lemma wf_overlaps:
  assumes "wf_crossword cw" "overlaps cw (x, y) = Some (i, j)"
  shows "x \<in> set (variables cw)" "y \<in> set (variables cw)" "x \<noteq> y"
    "overlaps cw (y, x) = Some (j, i)" "i < length_v x" "j < length_v y"
  using assms unfolding wf_crossword_def by blast+

lemma wf_neighbors:
  assumes "wf_crossword cw" "x \<in> set (variables cw)"
  shows "y \<in> set (neighbors cw x) \<longleftrightarrow> overlaps cw (y, x) \<noteq> None"
  using assms unfolding wf_crossword_def by blast

lemma arc_ok_None: "overlaps cw (x, y) = None \<Longrightarrow> arc_ok cw doms x y"
  by (simp add: arc_ok_def)

lemma arc_ok_Some:
  "overlaps cw (x, y) = Some (i, j) \<Longrightarrow>
     arc_ok cw doms x y \<longleftrightarrow>
       has_key doms x \<and> (\<forall>w \<in> set (domain_of doms x). supported doms y i j w \<and> has_key doms y)"
  by (simp add: arc_ok_def)

lemma supported_cong: "domain_of doms' y = domain_of doms y \<Longrightarrow> supported doms' y = supported doms y"
  by (simp add: supported_def fun_eq_iff)

lemma arc_ok_after_revise:
  assumes wf: "wf_crossword cw" and ov: "overlaps cw (x, y) = Some (i, j)"
    and r: "revise cw x y doms = Inr (b, doms')"
  shows "arc_ok cw doms' x y"
proof -
  from wf_overlaps(3)[OF wf ov] have ne: "y \<noteq> x" by simp
  note dv = domain_of_revise[OF ov r]
  note le = revise_le[OF r]
  from revise_Some[OF ov r] have "has_key doms x" by (auto dest: lookup_has_key)
  with le have hx: "has_key doms' x" by (simp add: has_key_le)
  from dv[of y] ne have "domain_of doms' y = domain_of doms y" by simp
  then have sc: "supported doms' y = supported doms y" by (rule supported_cong)
  have "supported doms' y i j w \<and> has_key doms' y" if "w \<in> set (domain_of doms' x)" for w
  proof -
    from that dv[of x] have s: "supported doms y i j w" by simp
    then obtain wy where "wy \<in> set (domain_of doms y)" unfolding supported_def by blast
    then have "has_key doms y" by (rule domain_of_nonempty_has_key)
    with le s sc show ?thesis by (simp add: has_key_le)
  qed
  with hx ov show ?thesis by (simp add: arc_ok_Some)
qed

lemma arc_ok_unaffected:
  assumes ov: "overlaps cw (x, y) = Some (i, j)" and r: "revise cw x y doms = Inr (b, doms')"
    and ok: "arc_ok cw doms x' y'" and ne: "y' \<noteq> x"
  shows "arc_ok cw doms' x' y'"
proof (cases "overlaps cw (x', y')")
  case None
  then show ?thesis by (rule arc_ok_None)
next
  case (Some p)
  obtain i' j' where p: "p = (i', j')" by (cases p)
  note ov' = Some[unfolded p]
  note dv = domain_of_revise[OF ov r]
  note le = revise_le[OF r]
  from dv[of y'] ne have "domain_of doms' y' = domain_of doms y'" by simp
  then have sc: "supported doms' y' = supported doms y'" by (rule supported_cong)
  from le have sub: "set (domain_of doms' x') \<subseteq> set (domain_of doms x')"
    by (simp add: doms_le_def)
  from ok ov' sub sc le show ?thesis
    by (auto simp: arc_ok_Some has_key_le)
qed

lemma arc_ok_reverse:
  assumes wf: "wf_crossword cw" and ov: "overlaps cw (x, y) = Some (i, j)"
    and r: "revise cw x y doms = Inr (b, doms')" and ok: "arc_ok cw doms y x"
  shows "arc_ok cw doms' y x"
proof -
  note ov' = wf_overlaps(4)[OF wf ov]
  from wf_overlaps(3)[OF wf ov] have ne: "y \<noteq> x" by simp
  note dv = domain_of_revise[OF ov r]
  note le = revise_le[OF r]
  from dv[of y] ne have dy: "domain_of doms' y = domain_of doms y" by simp
  from ok ov' have hy: "has_key doms y"
    and all: "\<forall>wy \<in> set (domain_of doms y). supported doms x j i wy \<and> has_key doms x"
    by (simp_all add: arc_ok_Some)
  have "supported doms' x j i wy \<and> has_key doms' x" if "wy \<in> set (domain_of doms' y)" for wy
  proof -
    from that dy have in_y: "wy \<in> set (domain_of doms y)" by simp
    with all obtain wx where wx: "wx \<in> set (domain_of doms x)"
      "j < length wy" "i < length wx" "wy ! j = wx ! i" and hx: "has_key doms x"
      unfolding supported_def by blast
    from in_y wx have "supported doms y i j wx" unfolding supported_def by auto
    with wx(1) dv[of x] have "wx \<in> set (domain_of doms' x)" by simp
    with wx hx le show ?thesis unfolding supported_def by (auto simp: has_key_le)
  qed
  with hy le ov' show ?thesis by (simp add: arc_ok_Some has_key_le)
qed


lemma ac3_loop_arcs_ok:
  "wf_crossword cw \<Longrightarrow> ac3_loop cw queue doms = Inr (True, doms') \<Longrightarrow>
     \<forall>x y. (x, y) \<in> set queue \<or> arc_ok cw doms x y \<Longrightarrow> arc_ok cw doms' u v"
proof (induction cw queue doms rule: ac3_loop.induct)
  case (1 cw doms)
  then show ?case by simp
next
  case (2 cw x y queue doms)
  note wf = "2.prems"(1) and inv = "2.prems"(3)
  from "2.prems"(2) obtain revised d1 where r: "revise cw x y doms = Inr (revised, d1)"
    by (auto split: sum.splits)
  have xy: "arc_ok cw d1 x y"
  proof (cases "overlaps cw (x, y)")
    case None
    then show ?thesis by (rule arc_ok_None)
  next
    case (Some p)
    then show ?thesis by (cases p) (auto intro: arc_ok_after_revise[OF wf _ r])
  qed
  show ?case
  proof (cases revised)
    case False
    with r have d1: "d1 = doms" by (auto dest: revise_False)
    from "2.prems"(2) r False have run: "ac3_loop cw queue d1 = Inr (True, doms')" by simp
    have "\<forall>x' y'. (x', y') \<in> set queue \<or> arc_ok cw d1 x' y'"
      using inv xy d1 by auto
    from "2.IH"(2)[OF r refl False wf run this] show ?thesis .
  next
    case True
    with "2.prems"(2) r obtain dx where dx: "lookup d1 x = Inr dx"
      by (auto split: sum.splits)
    with "2.prems"(2) r True have ne: "dx \<noteq> []" by (auto split: if_splits)
    let ?q = "queue @ map (\<lambda>z. (z, x)) (filter (\<lambda>z. z \<noteq> y) (neighbors cw x))"
    from "2.prems"(2) r True dx ne have run: "ac3_loop cw ?q d1 = Inr (True, doms')" by simp
    from True r obtain i j where ov: "overlaps cw (x, y) = Some (i, j)"
      by (cases "overlaps cw (x, y)") (auto simp: revise_def)
    have "(x', y') \<in> set ?q \<or> arc_ok cw d1 x' y'" for x' y'
    proof (cases "y' = x")
      case False
      show ?thesis
      proof (cases "(x', y') = (x, y)")
        case True
        with xy show ?thesis by simp
      next
        case neq: False
        from inv have "(x', y') \<in> set ((x, y) # queue) \<or> arc_ok cw doms x' y'" by blast
        with neq have "(x', y') \<in> set queue \<or> arc_ok cw doms x' y'" by auto
        with arc_ok_unaffected[OF ov r _ False] show ?thesis by auto
      qed
    next
      case yx: True
      show ?thesis
      proof (cases "x' = y")
        case True
        from wf_overlaps(3)[OF wf ov] have "(y, x) \<noteq> (x, y)" by simp
        with inv have "(y, x) \<in> set queue \<or> arc_ok cw doms y x" by (metis set_ConsD)
        with arc_ok_reverse[OF wf ov r] True yx show ?thesis by auto
      next
        case False
        show ?thesis
        proof (cases "overlaps cw (x', x)")
          case None
          with yx show ?thesis by (simp add: arc_ok_None)
        next
          case (Some p)
          with wf_neighbors[OF wf wf_overlaps(1)[OF wf ov], of x'] False yx
          show ?thesis by simp
        qed
      qed
    qed
    then have "\<forall>x' y'. (x', y') \<in> set ?q \<or> arc_ok cw d1 x' y'" by blast
    from "2.IH"(1)[OF r refl True dx ne wf run this] show ?thesis .
  qed
qed

lemma all_arcs_cover:
  assumes "wf_crossword cw" "overlaps cw (x, y) = Some p"
  shows "(x, y) \<in> set (all_arcs cw)"
proof -
  obtain i j where p: "p = (i, j)" by (cases p)
  note ov = assms(2)[unfolded p]
  from wf_overlaps(1,4)[OF assms(1) ov] wf_neighbors[OF assms(1), of x y]
  show ?thesis by (auto simp: all_arcs_def)
qed

lemma ac3_arcs_ok:
  assumes wf: "wf_crossword cw" and run: "ac3 cw None doms = Inr (True, doms')"
  shows "arc_ok cw doms' x y"
proof -
  from run have l: "ac3_loop cw (all_arcs cw) doms = Inr (True, doms')" by (simp add: ac3_def)
  have "\<forall>x y. (x, y) \<in> set (all_arcs cw) \<or> arc_ok cw doms x y"
  proof (intro allI)
    fix x y
    show "(x, y) \<in> set (all_arcs cw) \<or> arc_ok cw doms x y"
      by (cases "overlaps cw (x, y)") (auto simp: arc_ok_None all_arcs_cover[OF wf])
  qed
  from ac3_loop_arcs_ok[OF wf l this] show ?thesis .
qed

lemma arcs_ok_arc_consistent: "(\<And>x y. arc_ok cw doms x y) \<Longrightarrow> arc_consistent cw doms"
  unfolding arc_consistent_def
proof (intro ballI allI impI)
  fix X Y i j wx
  assume ok: "\<And>x y. arc_ok cw doms x y" and ov: "overlaps cw (X, Y) = Some (i, j)"
    and wx: "wx \<in> set (domain_of doms X)"
  from ok[of X Y] ov wx have "supported doms Y i j wx" by (simp add: arc_ok_Some)
  then show "\<exists>wy \<in> set (domain_of doms Y). i < length wx \<and> j < length wy \<and> wx ! i = wy ! j"
    by (simp add: supported_def)
qed

lemma revise_noop:
  assumes wf: "wf_crossword cw" and xy: "arc_ok cw doms x y" and yx: "arc_ok cw doms y x"
  shows "revise cw x y doms = Inr (False, doms)"
proof (cases "overlaps cw (x, y)")
  case None
  then show ?thesis by (rule revise_None)
next
  case (Some p)
  obtain i j where p: "p = (i, j)" by (cases p)
  note ov = Some[unfolded p]
  note ov' = wf_overlaps(4)[OF wf ov]
  from xy ov have hx: "has_key doms x"
    and sx: "\<forall>w \<in> set (domain_of doms x). supported doms y i j w \<and> has_key doms y"
    by (simp_all add: arc_ok_Some)
  from yx ov' have sy: "\<forall>wy \<in> set (domain_of doms y). supported doms x j i wy"
    by (simp add: arc_ok_Some)
  from sx have 1: "domain_of doms x = [] \<or> has_key doms y" by (cases "domain_of doms x") auto
  from sx have 2: "\<forall>w \<in> set (domain_of doms x). i < length w" by (auto simp: supported_def)
  from sy have 3: "\<forall>wy \<in> set (domain_of doms y). j < length wy" by (auto simp: supported_def)
  from revise_returns[OF ov hx 1 2 3] obtain b d' where r: "revise cw x y doms = Inr (b, d')"
    by blast
  from revise_Some[OF ov r] obtain dx where dx: "lookup doms x = Inr dx"
    and b: "b \<longleftrightarrow> filter (supported doms y i j) dx \<noteq> dx"
    and d: "d' = (if b then AList.update x (filter (supported doms y i j) dx) doms else doms)"
    by blast
  from dx sx have "filter (supported doms y i j) dx = dx"
    by (simp add: lookup_domain_of filter_id_conv)
  with b d r show ?thesis by simp
qed

lemma ac3_loop_noop:
  assumes wf: "wf_crossword cw" and ok: "\<And>x y. arc_ok cw doms x y"
  shows "ac3_loop cw queue doms = Inr (True, doms)"
proof (induction queue)
  case Nil
  show ?case by simp
next
  case (Cons arc queue)
  obtain x y where arc: "arc = (x, y)" by (cases arc)
  from revise_noop[OF wf ok ok] Cons.IH arc show ?case by simp
qed


lemma wf_cw_cross: "wf_crossword cw_cross"
  by (auto simp: wf_crossword_def cw_cross_def slot_across_def slot_down_def split: if_splits)

lemma wf_cw_single: "wf_crossword cw_single"
  by (simp add: wf_crossword_def cw_single_def)

lemma ex_bool [simp]: "\<exists>b::bool. b" "\<exists>b::bool. \<not> b"
  by blast+

lemma consistent_neighbors_True_D:
  "consistent_neighbors cw a v w ns = Inr True \<Longrightarrow> n \<in> set ns \<Longrightarrow>
     overlaps cw (v, n) = Some (i, j) \<Longrightarrow> map_of a n = Some wn \<Longrightarrow>
     i < length w \<and> j < length wn \<and> w ! i = wn ! j"
proof (induction ns)
  case Nil
  then show ?case by simp
next
  case (Cons m ns)
  show ?case
  proof (cases "m = n")
    case True
    with Cons.prems show ?thesis
      by (auto simp: has_key_def lookup_def getitem_def split: sum.splits if_splits)
  next
    case False
    with Cons.prems have "consistent_neighbors cw a v w ns = Inr True"
      by (auto split: option.splits sum.splits if_splits)
    with Cons.IH Cons.prems False show ?thesis by simp
  qed
qed

lemma consistent_loop_True_D:
  "consistent_loop cw a items seen = Inr True \<Longrightarrow>
     distinct (map snd items) \<and> set (map snd items) \<inter> set seen = {} \<and>
     (\<forall>(v, w) \<in> set items. length w = length_v v \<and>
        consistent_neighbors cw a v w (neighbors cw v) = Inr True)"
proof (induction items arbitrary: seen)
  case Nil
  then show ?case by simp
next
  case (Cons p items)
  obtain v w where p: "p = (v, w)" by (cases p)
  from Cons.prems p have 1: "w \<notin> set seen" "length w = length_v v"
    and 2: "consistent_neighbors cw a v w (neighbors cw v) = Inr True"
    and 3: "consistent_loop cw a items (w # seen) = Inr True"
    by (auto split: if_splits sum.splits)
  from Cons.IH[OF 3] 1 2 p show ?case by auto
qed

lemma consistent_neighbors_returns:
  assumes "\<forall>n \<in> set ns. \<forall>i j. overlaps cw (v, n) = Some (i, j) \<longrightarrow>
             i < length w \<and> (\<forall>wn. map_of a n = Some wn \<longrightarrow> j < length wn)"
  shows "\<exists>b. consistent_neighbors cw a v w ns = Inr b"
  using assms
proof (induction ns)
  case Nil
  then show ?case by simp
next
  case (Cons m ns)
  from Cons.prems have ih: "\<exists>b. consistent_neighbors cw a v w ns = Inr b"
    by (intro Cons.IH) simp
  show ?case
  proof (cases "has_key a m")
    case False
    with ih show ?thesis by simp
  next
    case True
    then obtain wn where wn: "map_of a m = Some wn" by (auto simp: has_key_def)
    show ?thesis
    proof (cases "overlaps cw (v, m)")
      case None
      with ih True show ?thesis by simp
    next
      case (Some p)
      obtain i j where p: "p = (i, j)" by (cases p)
      from Cons.prems Some p wn have "i < length w" "j < length wn" by simp_all
      with ih True Some p wn show ?thesis
        by (auto simp: getitem_def lookup_def)
    qed
  qed
qed

lemma consistent_neighbors_True_I:
  assumes "\<forall>n \<in> set ns. \<forall>i j wn. overlaps cw (v, n) = Some (i, j) \<longrightarrow>
           map_of a n = Some wn \<longrightarrow> i < length w \<and> j < length wn \<and> w ! i = wn ! j"
  shows "consistent_neighbors cw a v w ns = Inr True"
  using assms
proof (induction ns)
  case Nil
  then show ?case by simp
next
  case (Cons m ns)
  from Cons.prems have ih: "consistent_neighbors cw a v w ns = Inr True"
    by (intro Cons.IH) simp
  show ?case
  proof (cases "has_key a m")
    case False
    with ih show ?thesis by simp
  next
    case True
    then obtain wn where wn: "map_of a m = Some wn" by (auto simp: has_key_def)
    show ?thesis
    proof (cases "overlaps cw (v, m)")
      case None
      with ih True show ?thesis by simp
    next
      case (Some p)
      obtain i j where p: "p = (i, j)" by (cases p)
      from Cons.prems Some p wn
      have "i < length w" "j < length wn" "w ! i = wn ! j" by simp_all
      with ih True Some p wn show ?thesis
        by (auto simp: getitem_def lookup_def)
    qed
  qed
qed

lemma consistent_loop_returns:
  assumes "\<forall>(v, w) \<in> set items. length w = length_v v \<longrightarrow>
     (\<exists>b. consistent_neighbors cw a v w (neighbors cw v) = Inr b)"
  shows "\<exists>b. consistent_loop cw a items seen = Inr b"
  using assms
proof (induction items arbitrary: seen)
  case Nil
  then show ?case by simp
next
  case (Cons p items)
  obtain v w where p: "p = (v, w)" by (cases p)
  from Cons.prems have ih: "\<exists>b. consistent_loop cw a items (w # seen) = Inr b"
    by (intro Cons.IH) simp
  from Cons.prems p
  have "length w = length_v v \<Longrightarrow> \<exists>b. consistent_neighbors cw a v w (neighbors cw v) = Inr b"
    by simp
  with ih p show ?case by auto
qed

lemma consistent_loop_True_I:
  assumes "distinct (map snd items)" "set (map snd items) \<inter> set seen = {}"
    "\<forall>(v, w) \<in> set items.
       length w = length_v v \<and> consistent_neighbors cw a v w (neighbors cw v) = Inr True"
  shows "consistent_loop cw a items seen = Inr True"
  using assms
proof (induction items arbitrary: seen)
  case Nil
  then show ?case by simp
next
  case (Cons p items)
  obtain v w where p: "p = (v, w)" by (cases p)
  from Cons.prems p have ih: "consistent_loop cw a items (w # seen) = Inr True"
    by (intro Cons.IH) auto
  from Cons.prems p ih show ?case by auto
qed


lemma tuple_less_trans1: "tuple_less a b \<Longrightarrow> \<not> tuple_less a c \<Longrightarrow> \<not> tuple_less b c"
  by (auto simp: tuple_less_def)

lemma tuple_less_trans2: "\<not> tuple_less a b \<Longrightarrow> \<not> tuple_less b c \<Longrightarrow> \<not> tuple_less a c"
  by (auto simp: tuple_less_def)

lemma min_loop_min:
  "min_loop key vs best bk = Inr v \<Longrightarrow> key best = Inr bk \<Longrightarrow>
     \<exists>k. key v = Inr k \<and> \<not> tuple_less bk k \<and> (\<forall>x \<in> set vs. \<exists>k'. key x = Inr k' \<and> \<not> tuple_less k' k)"
proof (induction vs arbitrary: best bk)
  case Nil
  then show ?case by (auto simp: tuple_less_def)
next
  case (Cons u vs)
  from Cons.prems(1) obtain ku where ku: "key u = Inr ku" by (auto split: sum.splits)
  show ?case
  proof (cases "tuple_less ku bk")
    case True
    with Cons.prems(1) ku have "min_loop key vs u ku = Inr v" by simp
    from Cons.IH[OF this ku] obtain k where k: "key v = Inr k" "\<not> tuple_less ku k"
      "\<forall>x \<in> set vs. \<exists>k'. key x = Inr k' \<and> \<not> tuple_less k' k" by blast
    from tuple_less_trans1[OF True k(2)] k ku show ?thesis
      by (simp del: split_paired_Ex)
  next
    case False
    with Cons.prems(1) ku have "min_loop key vs best bk = Inr v" by simp
    from Cons.IH[OF this Cons.prems(2)] obtain k where k: "key v = Inr k" "\<not> tuple_less bk k"
      "\<forall>x \<in> set vs. \<exists>k'. key x = Inr k' \<and> \<not> tuple_less k' k" by blast
    from tuple_less_trans2[OF False k(2)] k ku show ?thesis
      by (simp del: split_paired_Ex)
  qed
qed

lemma min_by_min:
  assumes "min_by key xs = Inr v"
  shows "\<exists>k. key v = Inr k \<and> (\<forall>x \<in> set xs. \<exists>k'. key x = Inr k' \<and> \<not> tuple_less k' k)"
proof -
  from assms obtain u us ku where xs: "xs = u # us" and ku: "key u = Inr ku"
    and l: "min_loop key us u ku = Inr v"
    by (auto simp: min_by_def split: list.splits sum.splits)
  from min_loop_min[OF l ku] ku xs show ?thesis by (simp del: split_paired_Ex)
qed

lemma min_loop_returns:
  "\<forall>x \<in> set vs. \<exists>k. key x = Inr k \<Longrightarrow> \<exists>v. min_loop key vs best bk = Inr v"
proof (induction vs arbitrary: best bk)
  case Nil
  then show ?case by simp
next
  case (Cons u vs)
  from Cons.prems obtain k where k: "key u = Inr k" by auto
  from Cons.prems have "\<forall>x \<in> set vs. \<exists>k. key x = Inr k" by simp
  from Cons.IH[OF this, of u k] Cons.IH[OF this, of best bk] k show ?case by simp
qed

lemma min_by_returns:
  assumes "xs \<noteq> []" "\<forall>x \<in> set xs. \<exists>k. key x = Inr k"
  shows "\<exists>v. min_by key xs = Inr v"
proof -
  from assms(1) obtain u us where xs: "xs = u # us" by (cases xs) auto
  with assms(2) obtain k where k: "key u = Inr k" by auto
  from assms(2) xs have "\<forall>x \<in> set us. \<exists>k. key x = Inr k" by simp
  from min_loop_returns[OF this, of u k] xs k show ?thesis by (simp add: min_by_def)
qed

lemma unassigned_nonempty:
  assumes "distinct vs" "distinct (map fst a)" "fst ` set a \<subseteq> set vs" "length a \<noteq> length vs"
  shows "\<exists>v \<in> set vs. v \<notin> fst ` set a"
proof (rule ccontr)
  assume "\<not> (\<exists>v \<in> set vs. v \<notin> fst ` set a)"
  with assms(3) have "set (map fst a) = set vs" by auto
  then have "card (set (map fst a)) = card (set vs)" by (rule arg_cong)
  moreover from assms(2) have "card (set (map fst a)) = length (map fst a)" by (rule distinct_card)
  moreover from assms(1) have "card (set vs) = length vs" by (rule distinct_card)
  ultimately have "length (map fst a) = length vs" by simp
  with assms(4) show False by simp
qed

lemma domains_ok_lookup:
  assumes "domains_ok cw doms" "v \<in> set (variables cw)"
  shows "\<exists>d. lookup doms v = Inr d"
proof -
  from assms have "v \<in> fst ` set doms" by (simp add: domains_ok_def has_key_iff)
  then show ?thesis by (rule lookup_present)
qed

lemma assignment_ok_keys: "assignment_ok cw a \<Longrightarrow> fst ` set a \<subseteq> set (variables cw)"
  unfolding assignment_ok_def by force

lemma select_unassigned_variable_returns:
  assumes "distinct (variables cw)" "domains_ok cw doms" "assignment_ok cw a"
    "\<not> assignment_complete cw a"
  shows "\<exists>var. select_unassigned_variable cw a doms = Inr var"
proof -
  let ?un = "filter (\<lambda>v. \<not> has_key a v) (variables cw)"
  from assms(3) have "distinct (map fst a)" by (simp add: assignment_ok_def)
  with unassigned_nonempty[OF assms(1) _ assignment_ok_keys[OF assms(3)]] assms(4)
  have "\<exists>v \<in> set (variables cw). v \<notin> fst ` set a" by (simp add: assignment_complete_def)
  then have ne: "?un \<noteq> []" by (simp add: filter_empty_conv has_key_iff)
  have "\<forall>x \<in> set ?un. \<exists>k. sort_criteria cw doms x = Inr k"
    using domains_ok_lookup[OF assms(2)] by (fastforce simp: sort_criteria_def)
  from min_by_returns[OF ne this] show ?thesis by (simp add: select_unassigned_variable_def)
qed

lemma select_unassigned_variable_smallest:
  assumes "select_unassigned_variable cw a doms = Inr var" "v \<in> set (variables cw)"
    "v \<notin> fst ` set a"
  shows "length (domain_of doms var) \<le> length (domain_of doms v)"
proof -
  from assms(2,3) have "v \<in> set (filter (\<lambda>v. \<not> has_key a v) (variables cw))"
    by (simp add: has_key_iff)
  with min_by_min[OF assms(1)[unfolded select_unassigned_variable_def]]
  obtain k k' where "sort_criteria cw doms var = Inr k" "sort_criteria cw doms v = Inr k'"
    "\<not> tuple_less k' k" by blast
  then show ?thesis
    by (auto simp: sort_criteria_def tuple_less_def lookup_domain_of split: sum.splits)
qed

lemma keyed_Inr: "keyed key xs = Inr ks \<Longrightarrow> map snd ks = xs"
  by (induction xs arbitrary: ks) (auto split: sum.splits)

lemma keyed_returns: "\<forall>x \<in> set xs. \<exists>k. key x = Inr k \<Longrightarrow> \<exists>ks. keyed key xs = Inr ks"
  by (induction xs) auto

lemma sorted_by_set: "sorted_by key xs = Inr ys \<Longrightarrow> set ys = set xs"
proof -
  assume "sorted_by key xs = Inr ys"
  then obtain ks where ks: "keyed key xs = Inr ks" and ys: "ys = map snd (sort_key fst ks)"
    by (auto simp: sorted_by_def split: sum.splits)
  have "set ys = snd ` set ks" by (simp add: ys)
  also have "\<dots> = set (map snd ks)" by simp
  also have "\<dots> = set xs" by (simp only: keyed_Inr[OF ks])
  finally show ?thesis .
qed

lemma order_domain_values_set:
  "order_domain_values cw var a doms = Inr vals \<Longrightarrow> set vals = set (domain_of doms var)"
  by (auto simp: order_domain_values_def lookup_domain_of split: sum.splits dest!: sorted_by_set)

lemma count_words_returns:
  "i < length word \<Longrightarrow> \<forall>nw \<in> set ds. j < length nw \<Longrightarrow> \<exists>c. count_words word i j ds count = Inr c"
  by (induction ds arbitrary: count) (auto simp: getitem_def)

lemma count_loop_returns:
  assumes "\<forall>n \<in> set ns. \<forall>i j. overlaps cw (var, n) = Some (i, j) \<longrightarrow>
     i < length word \<and> has_key doms n \<and> (\<forall>nw \<in> set (domain_of doms n). j < length nw)"
  shows "\<exists>c. count_loop cw a doms var word ns count = Inr c"
  using assms
proof (induction ns arbitrary: count)
  case Nil
  then show ?case by simp
next
  case (Cons n ns)
  from Cons.prems have ih: "\<exists>c. count_loop cw a doms var word ns count' = Inr c" for count'
    by (intro Cons.IH) simp
  show ?case
  proof (cases "overlaps cw (var, n)")
    case None
    with ih show ?thesis by simp
  next
    case (Some p)
    obtain i j where p: "p = (i, j)" by (cases p)
    from Cons.prems Some p have 1: "i < length word" "has_key doms n"
      "\<forall>nw \<in> set (domain_of doms n). j < length nw" by simp_all
    from 1(2) have "n \<in> fst ` set doms" by (simp add: has_key_iff)
    from lookup_present[OF this] obtain dn where dn: "lookup doms n = Inr dn" by blast
    with 1(3) have "\<forall>nw \<in> set dn. j < length nw" by (simp add: lookup_domain_of)
    from count_words_returns[OF 1(1) this] obtain c where "count_words word i j dn count = Inr c"
      by blast
    with ih[of c] ih[of count] Some p dn show ?thesis by simp
  qed
qed


lemma domains_ok_D:
  assumes "domains_ok cw doms" "v \<in> set (variables cw)"
  shows "has_key doms v" "w \<in> set (domain_of doms v) \<Longrightarrow> length w = length_v v"
    "w \<in> set (domain_of doms v) \<Longrightarrow> w \<in> set (words cw)"
  using assms unfolding domains_ok_def by blast+

lemma domains_ok_le: "doms_le d' d \<Longrightarrow> domains_ok cw d \<Longrightarrow> domains_ok cw d'"
  unfolding domains_ok_def doms_le_def has_key_iff
  by (metis (no_types, lifting) set_map subsetD)

lemma order_domain_values_returns:
  assumes wf: "wf_crossword cw" and ok: "domains_ok cw doms" and var: "var \<in> set (variables cw)"
  shows "\<exists>vals. order_domain_values cw var a doms = Inr vals"
proof -
  from domains_ok_lookup[OF ok var] obtain d where d: "lookup doms var = Inr d" by blast
  have "\<exists>k. count_conflicts cw a doms var word = Inr k" if "word \<in> set d" for word
  proof -
    from that d have "word \<in> set (domain_of doms var)" by (simp add: lookup_domain_of)
    from domains_ok_D(2)[OF ok var this] have len: "length word = length_v var" .
    have "\<forall>n \<in> set (neighbors cw var). \<forall>i j. overlaps cw (var, n) = Some (i, j) \<longrightarrow>
        i < length word \<and> has_key doms n \<and> (\<forall>nw \<in> set (domain_of doms n). j < length nw)"
    proof (intro ballI allI impI)
      fix n i j
      assume ov: "overlaps cw (var, n) = Some (i, j)"
      note n = wf_overlaps(2)[OF wf ov]
      from wf_overlaps(5,6)[OF wf ov] len domains_ok_D(1,2)[OF ok n]
      show "i < length word \<and> has_key doms n \<and> (\<forall>nw \<in> set (domain_of doms n). j < length nw)"
        by auto
    qed
    then show ?thesis unfolding count_conflicts_def by (rule count_loop_returns)
  qed
  then have "\<forall>word \<in> set d. \<exists>k. count_conflicts cw a doms var word = Inr k" by blast
  from keyed_returns[OF this] d show ?thesis
    by (auto simp: order_domain_values_def sorted_by_def)
qed

lemma assignment_ok_D:
  assumes "assignment_ok cw a" "map_of a v = Some w"
  shows "v \<in> set (variables cw)" "length w = length_v v" "w \<in> set (words cw)"
proof -
  from assms(2) have "(v, w) \<in> set a" by (rule map_of_SomeD)
  with assms(1) show "v \<in> set (variables cw)" "length w = length_v v" "w \<in> set (words cw)"
    unfolding assignment_ok_def by blast+
qed

lemma assignment_ok_map_of:
  "assignment_ok cw a \<Longrightarrow> (v, w) \<in> set a \<Longrightarrow> map_of a v = Some w"
  by (simp add: assignment_ok_def)

lemma consistent_returns:
  assumes wf: "wf_crossword cw" and ok: "assignment_ok cw a"
  shows "\<exists>b. consistent cw a = Inr b"
  unfolding consistent_def
proof (rule consistent_loop_returns, clarify)
  fix v and w :: string
  assume len: "length w = length_v v"
  have "\<forall>n \<in> set (neighbors cw v). \<forall>i j. overlaps cw (v, n) = Some (i, j) \<longrightarrow>
             i < length w \<and> (\<forall>wn. map_of a n = Some wn \<longrightarrow> j < length wn)"
  proof (intro ballI allI impI conjI)
    fix n i j
    assume ov: "overlaps cw (v, n) = Some (i, j)"
    from wf_overlaps(5)[OF wf ov] len show "i < length w" by simp
    fix wn
    assume "map_of a n = Some wn"
    from assignment_ok_D(2)[OF ok this] wf_overlaps(6)[OF wf ov] show "j < length wn" by simp
  qed
  then show "\<exists>b. consistent_neighbors cw a v w (neighbors cw v) = Inr b"
    by (rule consistent_neighbors_returns)
qed

lemma complete_keys:
  assumes "distinct (variables cw)" "assignment_ok cw a" "assignment_complete cw a"
  shows "fst ` set a = set (variables cw)"
proof -
  from assms(2) have d: "distinct (map fst a)" by (simp add: assignment_ok_def)
  have "card (fst ` set a) = card (set (map fst a))" by simp
  also from d have "\<dots> = length (map fst a)" by (rule distinct_card)
  also from assms(3) have "\<dots> = length (variables cw)" by (simp add: assignment_complete_def)
  also from assms(1) have "\<dots> = card (set (variables cw))" by (simp add: distinct_card)
  finally have "card (fst ` set a) = card (set (variables cw))" .
  with assignment_ok_keys[OF assms(2)] show ?thesis
    by (intro card_subset_eq) simp_all
qed

lemma consistent_solution:
  assumes wf: "wf_crossword cw" and ok: "assignment_ok cw r"
    and complete: "assignment_complete cw r" and c: "consistent cw r = Inr True"
  shows "solution cw r"
proof -
  from wf have dv: "distinct (variables cw)" by (simp add: wf_crossword_def)
  note keys = complete_keys[OF dv ok complete]
  from consistent_loop_True_D[OF c[unfolded consistent_def]]
  have dw: "distinct (map snd r)"
    and nb: "\<forall>(v, w) \<in> set r. consistent_neighbors cw r v w (neighbors cw v) = Inr True"
    by auto
  have 1: "\<exists>w. map_of r v = Some w \<and> length w = length_v v \<and> w \<in> set (words cw)"
    if "v \<in> set (variables cw)" for v
  proof -
    from that keys have "has_key r v" by (simp add: has_key_iff)
    then obtain w where "map_of r v = Some w" by (auto simp: has_key_def)
    with assignment_ok_D(2,3)[OF ok this] show ?thesis by simp
  qed
  have 2: "map_of r v \<noteq> map_of r v'"
    if "v \<in> set (variables cw)" "v' \<in> set (variables cw)" "v \<noteq> v'" for v v'
  proof
    assume eq: "map_of r v = map_of r v'"
    from 1[OF that(1)] obtain w where w: "map_of r v = Some w" by blast
    with eq have w': "map_of r v' = Some w" by simp
    from w w' have in_r: "(v, w) \<in> set r" "(v', w) \<in> set r" by (auto dest: map_of_SomeD)
    from dw have "inj_on snd (set r)" by (simp add: distinct_map)
    from inj_onD[OF this _ in_r] have "(v, w) = (v', w)" by simp
    with that(3) show False by simp
  qed
  have 3: "i < length wx \<and> j < length wy \<and> wx ! i = wy ! j"
    if "overlaps cw (x, y) = Some (i, j)" "map_of r x = Some wx" "map_of r y = Some wy"
    for x y i j wx wy
  proof -
    from that(2) have "(x, wx) \<in> set r" by (rule map_of_SomeD)
    with nb have cn: "consistent_neighbors cw r x wx (neighbors cw x) = Inr True" by auto
    from wf_neighbors[OF wf wf_overlaps(1)[OF wf that(1)], of y] wf_overlaps(4)[OF wf that(1)]
    have "y \<in> set (neighbors cw x)" by simp
    from consistent_neighbors_True_D[OF cn this that(1) that(3)] show ?thesis .
  qed
  from 1 2 3 show ?thesis unfolding solution_def by blast
qed

lemma consistent_agreeing:
  assumes wf: "wf_crossword cw" and sol: "solution cw s" and ok: "assignment_ok cw a"
    and agree: "\<forall>(v, w) \<in> set a. map_of s v = Some w"
  shows "consistent cw a = Inr True"
  unfolding consistent_def
proof (rule consistent_loop_True_I)
  from ok have d: "distinct (map fst a)" by (simp add: assignment_ok_def)
  then have da: "distinct a" by (simp add: distinct_map)
  have "inj_on snd (set a)"
  proof (rule inj_onI)
    fix p q
    assume p: "p \<in> set a" and q: "q \<in> set a" and eq: "snd p = snd q"
    obtain v w where pv: "p = (v, w)" by (cases p)
    obtain v' w' where qv: "q = (v', w')" by (cases q)
    from eq pv qv have w': "w' = w" by simp
    from p q pv qv w' agree have m: "map_of s v = Some w" "map_of s v' = Some w" by auto
    from p q pv qv ok have "v \<in> set (variables cw)" "v' \<in> set (variables cw)"
      by (auto simp: assignment_ok_def)
    with sol m have "v = v'" unfolding solution_def by metis
    with pv qv w' show "p = q" by simp
  qed
  with da show "distinct (map snd a)" by (simp add: distinct_map)
  show "set (map snd a) \<inter> set [] = {}" by simp
  show "\<forall>(v, w) \<in> set a.
       length w = length_v v \<and> consistent_neighbors cw a v w (neighbors cw v) = Inr True"
  proof (clarify, intro conjI)
    fix v w
    assume vw: "(v, w) \<in> set a"
    with ok show "length w = length_v v" by (auto simp: assignment_ok_def)
    from vw agree have mv: "map_of s v = Some w" by auto
    have "\<forall>n \<in> set (neighbors cw v). \<forall>i j wn. overlaps cw (v, n) = Some (i, j) \<longrightarrow>
           map_of a n = Some wn \<longrightarrow> i < length w \<and> j < length wn \<and> w ! i = wn ! j"
    proof (intro ballI allI impI)
      fix n i j wn
      assume ov: "overlaps cw (v, n) = Some (i, j)" and "map_of a n = Some wn"
      then have "(n, wn) \<in> set a" by (auto dest: map_of_SomeD)
      with agree have "map_of s n = Some wn" by auto
      with sol ov mv show "i < length w \<and> j < length wn \<and> w ! i = wn ! j"
        unfolding solution_def by blast
    qed
    then show "consistent_neighbors cw a v w (neighbors cw v) = Inr True"
      by (rule consistent_neighbors_True_I)
  qed
qed


lemma revise_returns_ok:
  assumes wf: "wf_crossword cw" and ok: "domains_ok cw doms"
  shows "\<exists>b d'. revise cw x y doms = Inr (b, d')"
proof (cases "overlaps cw (x, y)")
  case None
  then show ?thesis by (simp add: revise_None)
next
  case (Some p)
  obtain i j where p: "p = (i, j)" by (cases p)
  note ov = Some[unfolded p]
  note x = wf_overlaps(1)[OF wf ov] and y = wf_overlaps(2)[OF wf ov]
  from domains_ok_D(2)[OF ok x] wf_overlaps(5)[OF wf ov]
  have 1: "\<forall>w \<in> set (domain_of doms x). i < length w" by auto
  from domains_ok_D(2)[OF ok y] wf_overlaps(6)[OF wf ov]
  have 2: "\<forall>wy \<in> set (domain_of doms y). j < length wy" by auto
  from domains_ok_D(1)[OF ok y] have 3: "domain_of doms x = [] \<or> has_key doms y" by simp
  from revise_returns[OF ov domains_ok_D(1)[OF ok x] 3 1 2] show ?thesis .
qed

lemma revise_True_overlap:
  "revise cw x y doms = Inr (True, d') \<Longrightarrow> \<exists>i j. overlaps cw (x, y) = Some (i, j)"
  by (cases "overlaps cw (x, y)") (auto simp: revise_def)

lemma ac3_loop_returns:
  "wf_crossword cw \<Longrightarrow> domains_ok cw doms \<Longrightarrow> \<exists>b d'. ac3_loop cw queue doms = Inr (b, d')"
proof (induction cw queue doms rule: ac3_loop.induct)
  case (1 cw doms)
  then show ?case by simp
next
  case (2 cw x y queue doms)
  note wf = "2.prems"(1) and ok = "2.prems"(2)
  from revise_returns_ok[OF wf ok] obtain revised d1 where r: "revise cw x y doms = Inr (revised, d1)"
    by blast
  from domains_ok_le[OF revise_le[OF r] ok] have ok1: "domains_ok cw d1" .
  show ?case
  proof (cases revised)
    case False
    from "2.IH"(2)[OF r refl False wf ok1] r False show ?thesis by simp
  next
    case True
    with r have "revise cw x y doms = Inr (True, d1)" by simp
    from revise_True_overlap[OF this] obtain i j where ov: "overlaps cw (x, y) = Some (i, j)"
      by blast
    from domains_ok_lookup[OF ok1 wf_overlaps(1)[OF wf ov]] obtain dx where
      dx: "lookup d1 x = Inr dx" by blast
    show ?thesis
    proof (cases "dx = []")
      case True
      with r \<open>revised\<close> dx show ?thesis by simp
    next
      case False
      from "2.IH"(1)[OF r refl \<open>revised\<close> dx False wf ok1] r \<open>revised\<close> dx False
      show ?thesis by simp
    qed
  qed
qed

lemma ac3_returns:
  "wf_crossword cw \<Longrightarrow> domains_ok cw doms \<Longrightarrow> \<exists>b d'. ac3 cw arcs doms = Inr (b, d')"
  by (cases arcs) (simp_all add: ac3_def ac3_loop_returns)

lemma revise_sol_in:
  assumes wf: "wf_crossword cw" and sol: "solution cw s" and si: "sol_in cw s doms"
    and r: "revise cw x y doms = Inr (b, d')"
  shows "sol_in cw s d'"
proof (cases "overlaps cw (x, y)")
  case None
  with r have "d' = doms" by (simp add: revise_None)
  with si show ?thesis by simp
next
  case (Some p)
  obtain i j where p: "p = (i, j)" by (cases p)
  note ov = Some[unfolded p]
  note dv = domain_of_revise[OF ov r]
  show ?thesis
    unfolding sol_in_def
  proof (intro ballI allI impI)
    fix v w
    assume v: "v \<in> set (variables cw)" and w: "map_of s v = Some w"
    with si have in_d: "w \<in> set (domain_of doms v)" by (simp add: sol_in_def)
    show "w \<in> set (domain_of d' v)"
    proof (cases "v = x")
      case False
      with dv[of v] in_d show ?thesis by simp
    next
      case True
      note y = wf_overlaps(2)[OF wf ov]
      with sol obtain wy where wy: "map_of s y = Some wy" unfolding solution_def by blast
      with si y have "wy \<in> set (domain_of doms y)" by (simp add: sol_in_def)
      moreover from sol ov w wy True have "i < length w \<and> j < length wy \<and> w ! i = wy ! j"
        unfolding solution_def by blast
      ultimately have "supported doms y i j w" unfolding supported_def by blast
      with dv[of v] in_d True show ?thesis by simp
    qed
  qed
qed

lemma ac3_loop_sol_in:
  "wf_crossword cw \<Longrightarrow> solution cw s \<Longrightarrow> sol_in cw s doms \<Longrightarrow>
     ac3_loop cw queue doms = Inr (b, d') \<Longrightarrow> b \<and> sol_in cw s d'"
proof (induction cw queue doms rule: ac3_loop.induct)
  case (1 cw doms)
  then show ?case by simp
next
  case (2 cw x y queue doms)
  note wf = "2.prems"(1) and sol = "2.prems"(2) and si = "2.prems"(3) and run = "2.prems"(4)
  from run obtain revised d1 where r: "revise cw x y doms = Inr (revised, d1)"
    by (auto split: sum.splits)
  note si1 = revise_sol_in[OF wf sol si r]
  show ?case
  proof (cases revised)
    case False
    with run r have "ac3_loop cw queue d1 = Inr (b, d')" by simp
    from "2.IH"(2)[OF r refl False wf sol si1 this] show ?thesis .
  next
    case True
    with run r obtain dx where dx: "lookup d1 x = Inr dx" by (auto split: sum.splits)
    from True r have "revise cw x y doms = Inr (True, d1)" by simp
    from revise_True_overlap[OF this] obtain i j where ov: "overlaps cw (x, y) = Some (i, j)"
      by blast
    note x = wf_overlaps(1)[OF wf ov]
    with sol obtain w where "map_of s x = Some w" unfolding solution_def by blast
    with si1 x have "w \<in> set (domain_of d1 x)" by (simp add: sol_in_def)
    with dx have "w \<in> set dx" by (simp add: lookup_domain_of)
    then have ne: "dx \<noteq> []" by auto
    with run r True dx have
      "ac3_loop cw (queue @ map (\<lambda>z. (z, x)) (filter (\<lambda>z. z \<noteq> y) (neighbors cw x))) d1 = Inr (b, d')"
      by simp
    from "2.IH"(1)[OF r refl True dx ne wf sol si1 this] show ?thesis .
  qed
qed

lemma update_fresh: "k \<notin> fst ` set al \<Longrightarrow> AList.update k v al = al @ [(k, v)]"
  by (induction al) auto

lemma assignment_ok_update:
  assumes "assignment_ok cw a" "var \<in> set (variables cw)" "var \<notin> fst ` set a"
    "length val = length_v var" "val \<in> set (words cw)"
  shows "assignment_ok cw (AList.update var val a)"
  using assms by (auto simp: update_fresh assignment_ok_def)

lemma delitem_update_fresh:
  "var \<notin> fst ` set a \<Longrightarrow> delitem (AList.update var val a) var = Inr a"
  by (simp add: delitem_def has_key_iff AList.dom_update AList.delete_update_same)

lemma truthy_Some: "truthy (Some r) \<longleftrightarrow> r \<noteq> []"
  by (simp add: truthy_def)

lemma truthy_None: "\<not> truthy None"
  by (simp add: truthy_def)


lemma backtrack_total:
  "wf_crossword cw \<Longrightarrow> domains_ok cw doms \<Longrightarrow> assignment_ok cw a \<Longrightarrow>
     \<exists>res a' d'. backtrack cw a doms = Inr (res, a', d') \<and> (res = None \<longrightarrow> a' = a) \<and>
        (\<forall>r. res = Some r \<longrightarrow> a' = r \<and> assignment_complete cw r \<and> assignment_ok cw r \<and>
           (r = a \<or> (r \<noteq> [] \<and> consistent cw r = Inr True)))"
  "wf_crossword cw \<Longrightarrow> domains_ok cw doms \<Longrightarrow> assignment_ok cw a \<Longrightarrow>
     var \<in> set (variables cw) \<Longrightarrow> var \<notin> fst ` set a \<Longrightarrow> set vals \<subseteq> set (domain_of doms var) \<Longrightarrow>
     \<exists>res a' d'. try_values cw var vals a doms = Inr (res, a', d') \<and> (res = None \<longrightarrow> a' = a) \<and>
        (\<forall>r. res = Some r \<longrightarrow> a' = r \<and> assignment_complete cw r \<and> assignment_ok cw r \<and>
           r \<noteq> [] \<and> consistent cw r = Inr True)"
proof (induction cw a doms and cw var vals a doms rule: backtrack_induct)
  case (backtrack cw a doms)
  note wf = backtrack.prems(1) and ok = backtrack.prems(2) and aok = backtrack.prems(3)
  show ?case
  proof (cases "assignment_complete cw a")
    case True
    with aok show ?thesis by (simp add: backtrack.simps)
  next
    case False
    from wf have dv: "distinct (variables cw)" by (simp add: wf_crossword_def)
    from select_unassigned_variable_returns[OF dv ok aok False] obtain var where
      sel: "select_unassigned_variable cw a doms = Inr var" by blast
    note var = select_unassigned_variable_mem[OF sel]
    from var have v1: "var \<in> set (variables cw)" and v2: "var \<notin> fst ` set a" by simp_all
    from order_domain_values_returns[OF wf ok v1] obtain vals where
      ord: "order_domain_values cw var a doms = Inr vals" by blast
    from order_domain_values_set[OF ord] have sub: "set vals \<subseteq> set (domain_of doms var)" by simp
    from backtrack.IH[OF False sel ord wf ok aok v1 v2 sub] obtain res a' d' where
      tv: "try_values cw var vals a doms = Inr (res, a', d')" and
      post: "res = None \<longrightarrow> a' = a"
        "\<forall>r. res = Some r \<longrightarrow> a' = r \<and> assignment_complete cw r \<and> assignment_ok cw r \<and>
           r \<noteq> [] \<and> consistent cw r = Inr True"
      by blast
    from False sel ord tv have "backtrack cw a doms = Inr (res, a', d')"
      by (simp add: backtrack.simps)
    with post show ?thesis by blast
  qed
next
  case (nil cw var a doms)
  then show ?case by (simp add: try_values.simps)
next
  case (cons cw var val vals a doms)
  note wf = cons.prems(1) and ok = cons.prems(2) and aok = cons.prems(3)
    and v1 = cons.prems(4) and v2 = cons.prems(5)
  from cons.prems(6) have val: "val \<in> set (domain_of doms var)"
    and sub: "set vals \<subseteq> set (domain_of doms var)" by simp_all
  let ?a1 = "AList.update var val a"
  from assignment_ok_update[OF aok v1 v2 domains_ok_D(2,3)[OF ok v1 val]]
  have aok1: "assignment_ok cw ?a1" .
  note del = delitem_update_fresh[OF v2, of val]
  from consistent_returns[OF wf aok1] obtain c where c: "consistent cw ?a1 = Inr c" by blast
  show ?case
  proof (cases c)
    case False
    with c have c': "consistent cw ?a1 = Inr False" by simp
    from cons.IH(4)[OF c' wf ok aok v1 v2 sub] c' show ?thesis
      by (simp add: try_values.simps(2)[of cw var val vals])
  next
    case True
    with c have c': "consistent cw ?a1 = Inr True" by simp
    from ac3_returns[OF wf ok] obtain arc d1 where ac: "ac3 cw None doms = Inr (arc, d1)"
      by blast
    from domains_ok_le[OF ac3_le[OF ac] ok] have ok1: "domains_ok cw d1" .
    show ?thesis
    proof (cases arc)
      case False
      with ac have ac': "ac3 cw None doms = Inr (False, d1)" by simp
      from cons.IH(3)[OF c' ac' del wf ok aok v1 v2 sub] c' ac' del show ?thesis
        by (simp add: try_values.simps(2)[of cw var val vals])
    next
      case True
      with ac have ac': "ac3 cw None doms = Inr (True, d1)" by simp
      from cons.IH(1)[OF c' ac' wf ok1 aok1] obtain res1 a2 d2 where
        bt: "backtrack cw ?a1 d1 = Inr (res1, a2, d2)" and
        p1: "res1 = None \<longrightarrow> a2 = ?a1" and
        p2: "\<forall>r. res1 = Some r \<longrightarrow> a2 = r \<and> assignment_complete cw r \<and> assignment_ok cw r \<and>
           (r = ?a1 \<or> (r \<noteq> [] \<and> consistent cw r = Inr True))"
        by blast
      show ?thesis
      proof (cases res1)
        case None
        with p1 have a2: "a2 = ?a1" by simp
        from None have nt: "\<not> truthy res1" by (simp add: truthy_None)
        from del a2 have del2: "delitem a2 var = Inr a" by simp
        from cons.IH(2)[OF c' ac' bt nt del2 wf ok aok v1 v2 sub] c' ac' bt nt del2
        show ?thesis by (simp add: try_values.simps(2)[of cw var val vals])
      next
        case (Some r)
        with p2 have r: "a2 = r" "assignment_complete cw r" "assignment_ok cw r"
          "r = ?a1 \<or> (r \<noteq> [] \<and> consistent cw r = Inr True)" by simp_all
        have "?a1 \<noteq> []" by (rule AList.update_nonempty)
        with r(4) c' have r': "r \<noteq> []" "consistent cw r = Inr True" by metis+
        with Some have t: "truthy res1" by (simp add: truthy_Some)
        from c' ac' bt t have "try_values cw var (val # vals) a doms = Inr (res1, a2, d2)"
          by (simp add: try_values.simps(2)[of cw var val vals])
        with Some r r' show ?thesis by simp
      qed
    qed
  qed
qed


lemma map_of_init:
  "map_of (CrosswordCreator cw) v = (if v \<in> set (variables cw) then Some (words cw) else None)"
  unfolding CrosswordCreator_def by (induction "variables cw" arbitrary: cw) (auto simp: map_of_map_restrict)


lemma domain_of_init:
  "domain_of (CrosswordCreator cw) v = (if v \<in> set (variables cw) then words cw else [])"
  by (simp add: domain_of_def map_of_init)

lemma enforce_domains_ok:
  assumes "enforce_node_consistency cw (CrosswordCreator cw) = Inr d1"
  shows "domains_ok cw d1"
  unfolding domains_ok_def
proof (intro ballI conjI)
  from assms have le: "doms_le d1 (CrosswordCreator cw)"
    unfolding enforce_node_consistency_def by (rule enforce_loop_le)
  fix v
  assume v: "v \<in> set (variables cw)"
  then have "has_key (CrosswordCreator cw) v" by (simp add: has_key_def map_of_init)
  with le show "has_key d1 v" by (simp add: has_key_le)
  fix w
  assume w: "w \<in> set (domain_of d1 v)"
  from enforce_node_consistency_node_consistent[OF assms] v w show "length w = length_v v"
    by (simp add: node_consistent_def)
  from le w have "w \<in> set (domain_of (CrosswordCreator cw) v)" unfolding doms_le_def by blast
  with v show "w \<in> set (words cw)" by (simp add: domain_of_init)
qed

lemma enforce_loop_keeps:
  "enforce_loop vs doms = Inr d' \<Longrightarrow> w \<in> set (domain_of doms v) \<Longrightarrow>
     length w = length_v v \<Longrightarrow> w \<in> set (domain_of d' v)"
proof (induction vs arbitrary: doms)
  case Nil
  then show ?case by simp
next
  case (Cons var vs)
  from Cons.prems(1) obtain d where d: "lookup doms var = Inr d"
    and r: "enforce_loop vs
       (AList.update var (set_minus d (filter (\<lambda>word. length word \<noteq> length_v var) d)) doms) = Inr d'"
    by (auto split: sum.splits)
  from Cons.prems(2,3) lookup_domain_of[OF d]
  have "w \<in> set (domain_of
      (AList.update var (set_minus d (filter (\<lambda>word. length word \<noteq> length_v var) d)) doms) v)"
    by (auto simp: domain_of_update set_minus_def)
  from Cons.IH[OF r this Cons.prems(3)] show ?case .
qed

lemma enforce_sol_in:
  assumes "solution cw s" "enforce_node_consistency cw (CrosswordCreator cw) = Inr d1"
  shows "sol_in cw s d1"
  unfolding sol_in_def
proof (intro ballI allI impI)
  fix v w
  assume v: "v \<in> set (variables cw)" and w: "map_of s v = Some w"
  with assms(1) have "length w = length_v v" "w \<in> set (words cw)"
    unfolding solution_def by fastforce+
  with v enforce_loop_keeps[OF assms(2)[unfolded enforce_node_consistency_def], of w v]
  show "w \<in> set (domain_of d1 v)" by (simp add: domain_of_init)
qed

lemma assignment_ok_Nil: "assignment_ok cw []"
  by (simp add: assignment_ok_def)

lemma solution_no_variables: "wf_crossword cw \<Longrightarrow> variables cw = [] \<Longrightarrow> solution cw []"
  by (simp add: solution_def)

lemma solve_Inr:
  assumes "solve cw doms = Inr (res, d)"
  obtains d1 arc d2 a' where "enforce_node_consistency cw doms = Inr d1"
    "ac3 cw None d1 = Inr (arc, d2)" "backtrack cw [] d2 = Inr (res, a', d)"
  using assms by (auto simp: solve_def split: sum.splits prod.splits)

lemma backtrack_complete:
  "wf_crossword cw \<Longrightarrow> solution cw s \<Longrightarrow> domains_ok cw doms \<Longrightarrow> sol_in cw s doms \<Longrightarrow>
     assignment_ok cw a \<Longrightarrow> \<forall>(v, w) \<in> set a. map_of s v = Some w \<Longrightarrow>
     backtrack cw a doms = Inr (res, a', d') \<Longrightarrow> res \<noteq> None"
  "wf_crossword cw \<Longrightarrow> solution cw s \<Longrightarrow> domains_ok cw doms \<Longrightarrow> sol_in cw s doms \<Longrightarrow>
     assignment_ok cw a \<Longrightarrow> \<forall>(v, w) \<in> set a. map_of s v = Some w \<Longrightarrow>
     var \<in> set (variables cw) \<Longrightarrow> var \<notin> fst ` set a \<Longrightarrow>
     set vals \<subseteq> set (domain_of doms var) \<Longrightarrow> \<exists>w. map_of s var = Some w \<and> w \<in> set vals \<Longrightarrow>
     try_values cw var vals a doms = Inr (res, a', d') \<Longrightarrow> res \<noteq> None"
proof (induction cw a doms and cw var vals a doms arbitrary: res a' d' and res a' d'
    rule: backtrack_induct)
  case (backtrack cw a doms)
  note wf = backtrack.prems(1) and sol = backtrack.prems(2) and ok = backtrack.prems(3)
    and si = backtrack.prems(4) and aok = backtrack.prems(5) and agree = backtrack.prems(6)
  from backtrack.prems(7) show ?case
  proof (cases rule: backtrack_cases)
    case complete
    then show ?thesis by simp
  next
    case (search var vals)
    note var = select_unassigned_variable_mem[OF search(2)]
    from var have v1: "var \<in> set (variables cw)" and v2: "var \<notin> fst ` set a" by simp_all
    from order_domain_values_set[OF search(3)] have eq: "set vals = set (domain_of doms var)" .
    from sol v1 obtain w where w: "map_of s var = Some w" unfolding solution_def by blast
    with si v1 eq have "w \<in> set vals" by (simp add: sol_in_def)
    with w have ex: "\<exists>w. map_of s var = Some w \<and> w \<in> set vals" by blast
    from eq have sub: "set vals \<subseteq> set (domain_of doms var)" by simp
    from backtrack.IH[OF search(1,2,3) wf sol ok si aok agree v1 v2 sub ex search(4)]
    show ?thesis .
  qed
next
  case (nil cw var a doms)
  then show ?case by simp
next
  case (cons cw var val vals a doms)
  note wf = cons.prems(1) and sol = cons.prems(2) and ok = cons.prems(3)
    and si = cons.prems(4) and aok = cons.prems(5) and agree = cons.prems(6)
    and v1 = cons.prems(7) and v2 = cons.prems(8)
  from cons.prems(9) have val: "val \<in> set (domain_of doms var)"
    and sub: "set vals \<subseteq> set (domain_of doms var)" by simp_all
  from cons.prems(10) obtain w where w: "map_of s var = Some w" "w = val \<or> w \<in> set vals"
    by auto
  let ?a1 = "AList.update var val a"
  from assignment_ok_update[OF aok v1 v2 domains_ok_D(2,3)[OF ok v1 val]]
  have aok1: "assignment_ok cw ?a1" .
  note del = delitem_update_fresh[OF v2, of val]
  have agree1: "\<forall>(v, w) \<in> set ?a1. map_of s v = Some w" if "w = val"
    using agree w(1) that by (auto simp: update_fresh[OF v2])
  from cons.prems(11) show ?case
  proof (cases rule: try_values_cases)
    case inconsistent
    from inconsistent(1) consistent_agreeing[OF wf sol aok1 agree1] have "w \<noteq> val" by auto
    with w have "\<exists>w. map_of s var = Some w \<and> w \<in> set vals" by blast
    from cons.IH(4)[OF inconsistent(1) wf sol ok si aok agree v1 v2 sub this inconsistent(2)]
    show ?thesis .
  next
    case (arc_fail d1 a3)
    from arc_fail(2) have "ac3_loop cw (all_arcs cw) doms = Inr (False, d1)"
      by (simp add: ac3_def)
    from ac3_loop_sol_in[OF wf sol si this] show ?thesis by simp
  next
    case (found d1 result a2 d2)
    from found(4,5) show ?thesis by (cases result) (simp_all add: truthy_None)
  next
    case (retry d1 result a2 d2 a3)
    from retry(2) have l: "ac3_loop cw (all_arcs cw) doms = Inr (True, d1)"
      by (simp add: ac3_def)
    from ac3_loop_sol_in[OF wf sol si l] have si1: "sol_in cw s d1" by simp
    from domains_ok_le[OF ac3_le[OF retry(2)] ok] have ok1: "domains_ok cw d1" .
    from backtrack_total(1)[OF wf ok1 aok1] obtain res1 b2 e2 where
      bt': "backtrack cw ?a1 d1 = Inr (res1, b2, e2)" and
      p1: "res1 = None \<longrightarrow> b2 = ?a1" and
      p2: "\<forall>r. res1 = Some r \<longrightarrow> (r = ?a1 \<or> r \<noteq> [])"
      by blast
    from bt' retry(3) have same: "res1 = result" "b2 = a2" by simp_all
    have none: "result = None"
    proof (cases result)
      case None
      then show ?thesis .
    next
      case (Some r)
      with p2 same have "r = ?a1 \<or> r \<noteq> []" by simp
      moreover have "?a1 \<noteq> []" by (rule AList.update_nonempty)
      ultimately have "r \<noteq> []" by metis
      with Some retry(4) show ?thesis by (simp add: truthy_Some)
    qed
    with p1 same have a2: "a2 = ?a1" by simp
    from a2 del retry(5) have a3: "a3 = a" by simp
    have "w \<noteq> val"
    proof
      assume "w = val"
      from cons.IH(1)[OF retry(1,2) wf sol ok1 si1 aok1 agree1[OF this] retry(3)] none
      show False by simp
    qed
    with w have "\<exists>w. map_of s var = Some w \<and> w \<in> set vals" by blast
    from cons.IH(2)[OF retry(1,2,3,4,5) wf sol ok si aok[folded a3] agree[folded a3] v1
        v2[folded a3] sub this retry(6)]
    show ?thesis .
  qed
qed

lemma backtrack_arcs_ok_same:
  "wf_crossword cw \<Longrightarrow> \<forall>x y. arc_ok cw doms x y \<Longrightarrow>
     backtrack cw a doms = Inr (res, a', d') \<Longrightarrow> d' = doms"
  "wf_crossword cw \<Longrightarrow> \<forall>x y. arc_ok cw doms x y \<Longrightarrow>
     try_values cw var vals a doms = Inr (res, a', d') \<Longrightarrow> d' = doms"
proof (induction cw a doms and cw var vals a doms arbitrary: res a' d' and res a' d'
    rule: backtrack_induct)
  case (backtrack cw a doms)
  from backtrack.prems(3) show ?case
  proof (cases rule: backtrack_cases)
    case complete
    then show ?thesis by simp
  next
    case (search var vals)
    from backtrack.IH[OF search(1,2,3) backtrack.prems(1,2) search(4)] show ?thesis .
  qed
next
  case (nil cw var a doms)
  then show ?case by (simp add: try_values.simps)
next
  case (cons cw var val vals a doms)
  note wf = cons.prems(1) and ok = cons.prems(2)
  from ok have noop: "ac3 cw None doms = Inr (True, doms)"
    by (simp add: ac3_def ac3_loop_noop[OF wf])
  from cons.prems(3) show ?case
  proof (cases rule: try_values_cases)
    case inconsistent
    from cons.IH(4)[OF inconsistent(1) wf ok inconsistent(2)] show ?thesis .
  next
    case (arc_fail d1 a3)
    with noop show ?thesis by simp
  next
    case (found d1 result a2 d2)
    from found(2) noop have d1: "d1 = doms" by simp
    from cons.IH(1)[OF found(1,2) wf ok[folded d1] found(3)] d1 found(5) show ?thesis by simp
  next
    case (retry d1 result a2 d2 a3)
    from cons.IH(2)[OF retry(1,2,3,4,5) wf ok retry(6)] show ?thesis .
  qed
qed

lemma solve_sound:
  assumes "wf_crossword cw" "solve cw (CrosswordCreator cw) = Inr (Some r, d)"
  shows "assignment_complete cw r \<and> fst ` set r = set (variables cw) \<and> solution cw r"
proof -
  from assms(1) have dv: "distinct (variables cw)" by (simp add: wf_crossword_def)
  from assms(2) obtain d1 arc d2 a' where
    e: "enforce_node_consistency cw (CrosswordCreator cw) = Inr d1" and
    a: "ac3 cw None d1 = Inr (arc, d2)" and
    b: "backtrack cw [] d2 = Inr (Some r, a', d)"
    by (rule solve_Inr)
  from domains_ok_le[OF ac3_le[OF a] enforce_domains_ok[OF e]] have ok: "domains_ok cw d2" .
  from backtrack_total(1)[OF assms(1) ok assignment_ok_Nil] b
  have c: "assignment_complete cw r" and aok: "assignment_ok cw r"
    and r: "r = [] \<or> consistent cw r = Inr True"
    by auto
  have "solution cw r"
  proof (cases "r = []")
    case True
    with c have "variables cw = []" by (simp add: assignment_complete_def)
    with True assms(1) show ?thesis by (simp add: solution_no_variables)
  next
    case False
    with r have "consistent cw r = Inr True" by simp
    from consistent_solution[OF assms(1) aok c this] show ?thesis .
  qed
  with c complete_keys[OF dv aok c] show ?thesis by simp
qed

section \<open>The properties of the specification\<close>


text \<open>
  C3. Claim: whenever \<open>ac3\<close> returns True, every slot's domain is non-empty. The code
  tests a domain for emptiness only right after a revision removed words from it. For the
  puzzle with one slot of length 3 and the vocabulary \<open>{go}\<close>, node consistency leaves
  the slot's domain empty, and \<open>ac3()\<close>, with no arc to process, returns True on that
  state, against its own docstring.
\<close>

theorem ac3_true_with_empty_domain:
  "enforce_node_consistency cw_single (CrosswordCreator cw_single) = Inr [(slot_across, [])] \<and>
   ac3 cw_single None [(slot_across, [])] = Inr (True, [(slot_across, [])]) \<and>
   domain_of [(slot_across, [])] slot_across = []"
  by code_simp

text \<open>
  C5. Node-consistency invariant: \<open>enforce_node_consistency\<close> runs to its end on the
  constructor's state, every word it leaves in a slot's domain has the slot's length, and
  \<open>revise\<close>, \<open>ac3\<close>, \<open>backtrack\<close> and the whole of \<open>solve\<close> keep that property.
\<close>

theorem node_consistency_invariant:
  "(\<exists>d. enforce_node_consistency cw (CrosswordCreator cw) = Inr d) \<and>
   (enforce_node_consistency cw doms0 = Inr doms \<longrightarrow> node_consistent cw doms) \<and>
   (node_consistent cw doms \<and> revise cw x y doms = Inr (revised, doms1)
      \<longrightarrow> node_consistent cw doms1) \<and>
   (node_consistent cw doms \<and> ac3 cw arcs doms = Inr (ok, doms2)
      \<longrightarrow> node_consistent cw doms2) \<and>
   (node_consistent cw doms \<and> backtrack cw a doms = Inr (result, a', doms3)
      \<longrightarrow> node_consistent cw doms3) \<and>
   (solve cw (CrosswordCreator cw) = Inr (result', doms4) \<longrightarrow> node_consistent cw doms4)"
proof (intro conjI impI)
  show "\<exists>d. enforce_node_consistency cw (CrosswordCreator cw) = Inr d"
    by (rule enforce_node_consistency_returns)
next
  assume "enforce_node_consistency cw doms0 = Inr doms"
  then show "node_consistent cw doms" by (rule enforce_node_consistency_node_consistent)
next
  assume "node_consistent cw doms \<and> revise cw x y doms = Inr (revised, doms1)"
  then show "node_consistent cw doms1" using revise_le node_consistent_le by blast
next
  assume "node_consistent cw doms \<and> ac3 cw arcs doms = Inr (ok, doms2)"
  then show "node_consistent cw doms2" using ac3_le node_consistent_le by blast
next
  assume "node_consistent cw doms \<and> backtrack cw a doms = Inr (result, a', doms3)"
  then show "node_consistent cw doms3" using backtrack_le(1) node_consistent_le by blast
next
  assume "solve cw (CrosswordCreator cw) = Inr (result', doms4)"
  then obtain d1 ok' d2 a2 where
    e: "enforce_node_consistency cw (CrosswordCreator cw) = Inr d1" and
    a: "ac3 cw None d1 = Inr (ok', d2)" and
    b: "backtrack cw [] d2 = Inr (result', a2, doms4)"
    by (auto simp: solve_def split: sum.splits prod.splits)
  from e have "node_consistent cw d1" by (rule enforce_node_consistency_node_consistent)
  with ac3_le[OF a] have "node_consistent cw d2" by (rule node_consistent_le)
  with backtrack_le(1)[OF b] show "node_consistent cw doms4" by (rule node_consistent_le)
qed

theorem node_consistency_invariant_witness:
  "enforce_node_consistency cw_cross (CrosswordCreator cw_cross) =
     Inr [(slot_across, [''cat'', ''dog'', ''tea'']), (slot_down, [''cat'', ''dog'', ''tea''])] \<and>
   node_consistent cw_cross
     [(slot_across, [''cat'', ''dog'', ''tea'']), (slot_down, [''cat'', ''dog'', ''tea''])] \<and>
   node_consistent cw_cross
     [(slot_across, [''tea'']), (slot_down, [''cat'', ''dog'', ''tea''])] \<and>
   node_consistent cw_cross [(slot_across, [''tea'']), (slot_down, [''cat''])]"
proof -
  let ?init = "CrosswordCreator cw_cross"
  let ?nc = "[(slot_across, [''cat'', ''dog'', ''tea'']), (slot_down, [''cat'', ''dog'', ''tea''])]"
  let ?rv = "[(slot_across, [''tea'']), (slot_down, [''cat'', ''dog'', ''tea''])]"
  let ?ac = "[(slot_across, [''tea'']), (slot_down, [''cat''])]"
  let ?sol = "[(slot_across, ''tea''), (slot_down, ''cat'')]"
  have e: "enforce_node_consistency cw_cross ?init = Inr ?nc" by code_simp
  have r: "revise cw_cross slot_across slot_down ?nc = Inr (True, ?rv)" by code_simp
  have a: "ac3 cw_cross None ?nc = Inr (True, ?ac)" by code_simp
  have b: "backtrack cw_cross [] ?nc = Inr (Some ?sol, ?sol, ?ac)" by code_simp
  have s: "solve cw_cross ?init = Inr (Some ?sol, ?ac)" by code_simp
  from node_consistency_invariant[of cw_cross ?init ?nc slot_across slot_down True ?rv
      None True ?ac "[]" "Some ?sol" ?sol ?ac "Some ?sol" ?ac] e r a b s
  show ?thesis by simp
qed

text \<open>
  C7. Domain monotonicity: each operation of the solve (\<open>enforce_node_consistency\<close>,
  \<open>revise\<close>, \<open>ac3\<close>, \<open>backtrack\<close> with its loop over the candidate words, and
  \<open>solve\<close> itself) ends in a domain state with the same slots in which no domain holds
  a word it did not hold when the operation began; and a \<open>backtrack\<close> that fails leaves
  the domain state exactly as it found it (the snapshot is restored).
\<close>

theorem domain_monotonicity:
  "(enforce_node_consistency cw doms = Inr doms1 \<longrightarrow> doms_le doms1 doms) \<and>
   (revise cw x y doms = Inr (revised, doms2) \<longrightarrow> doms_le doms2 doms) \<and>
   (ac3 cw arcs doms = Inr (ok, doms3) \<longrightarrow> doms_le doms3 doms) \<and>
   (backtrack cw a doms = Inr (result, a', doms4) \<longrightarrow>
      doms_le doms4 doms \<and> (result = None \<longrightarrow> doms4 = doms)) \<and>
   (try_values cw var vals a doms = Inr (result5, a5, doms5) \<longrightarrow>
      doms_le doms5 doms \<and> (result5 = None \<longrightarrow> doms5 = doms)) \<and>
   (solve cw doms = Inr (result6, doms6) \<longrightarrow> doms_le doms6 doms)"
proof (intro conjI impI)
  assume "enforce_node_consistency cw doms = Inr doms1"
  then show "doms_le doms1 doms"
    unfolding enforce_node_consistency_def by (rule enforce_loop_le)
next
  assume "revise cw x y doms = Inr (revised, doms2)"
  then show "doms_le doms2 doms" by (rule revise_le)
next
  assume "ac3 cw arcs doms = Inr (ok, doms3)"
  then show "doms_le doms3 doms" by (rule ac3_le)
next
  assume "backtrack cw a doms = Inr (result, a', doms4)"
  then show "doms_le doms4 doms" by (rule backtrack_le(1))
next
  assume "backtrack cw a doms = Inr (result, a', doms4)" "result = None"
  then show "doms4 = doms" using backtrack_None_restores(1) by blast
next
  assume "try_values cw var vals a doms = Inr (result5, a5, doms5)"
  then show "doms_le doms5 doms" by (rule backtrack_le(2))
next
  assume "try_values cw var vals a doms = Inr (result5, a5, doms5)" "result5 = None"
  then show "doms5 = doms" using backtrack_None_restores(2) by blast
next
  assume "solve cw doms = Inr (result6, doms6)"
  then show "doms_le doms6 doms" by (rule solve_le)
qed

theorem domain_monotonicity_witness:
  "doms_le [(slot_across, [''cat'', ''dog'', ''tea'']), (slot_down, [''cat'', ''dog'', ''tea''])]
     (CrosswordCreator cw_cross) \<and>
   doms_le [(slot_across, [''tea'']), (slot_down, [''cat'', ''dog'', ''tea''])]
     [(slot_across, [''cat'', ''dog'', ''tea'']), (slot_down, [''cat'', ''dog'', ''tea''])] \<and>
   doms_le [(slot_across, [''tea'']), (slot_down, [''cat''])]
     [(slot_across, [''cat'', ''dog'', ''tea'']), (slot_down, [''cat'', ''dog'', ''tea''])] \<and>
   doms_le [(slot_across, [''tea'']), (slot_down, [''cat''])] (CrosswordCreator cw_cross) \<and>
   backtrack cw_single [] [(slot_across, [])] = Inr (None, [], [(slot_across, [])])"
proof -
  let ?init = "CrosswordCreator cw_cross"
  let ?nc = "[(slot_across, [''cat'', ''dog'', ''tea'']), (slot_down, [''cat'', ''dog'', ''tea''])]"
  let ?rv = "[(slot_across, [''tea'']), (slot_down, [''cat'', ''dog'', ''tea''])]"
  let ?ac = "[(slot_across, [''tea'']), (slot_down, [''cat''])]"
  let ?sol = "[(slot_across, ''tea''), (slot_down, ''cat'')]"
  have e: "enforce_node_consistency cw_cross ?init = Inr ?nc" by code_simp
  have r: "revise cw_cross slot_across slot_down ?nc = Inr (True, ?rv)" by code_simp
  have a: "ac3 cw_cross None ?nc = Inr (True, ?ac)" by code_simp
  have s: "solve cw_cross ?init = Inr (Some ?sol, ?ac)" by code_simp
  have b: "backtrack cw_single [] [(slot_across, [])] = Inr (None, [], [(slot_across, [])])"
    by code_simp
  from domain_monotonicity[of cw_cross ?init ?nc] e have 1: "doms_le ?nc ?init" by simp
  from domain_monotonicity[of cw_cross ?nc _ slot_across slot_down True ?rv None True ?ac] r a
  have 2: "doms_le ?rv ?nc" "doms_le ?ac ?nc" by simp_all
  from domain_monotonicity[of cw_cross ?init _ _ _ _ _ _ _ _ _ _ _ _ _ _ _ _ _ "Some ?sol" ?ac] s
  have 3: "doms_le ?ac ?init" by simp
  from 1 2 3 b show ?thesis by simp
qed

text \<open>
  C4. Claim: for every pair of slots and every domain state, \<open>revise(x, y)\<close> removes from
  x's domain exactly the words without a matching word in y's domain, returns True iff x's
  domain changed, leaves the other domains alone, and is a no-op returning False when the
  pair has no overlap. As stated it fails: on the domain state the constructor builds
  (every domain the whole vocabulary \<open>{cat, dog, tea, go}\<close>), \<open>revise\<close> on the crossing
  pair reads letter 2 of \<open>go\<close> and raises \<open>IndexError\<close>.
\<close>

theorem revise_raises_on_short_word:
  "revise cw_cross slot_across slot_down (CrosswordCreator cw_cross) = Inl IndexError"
  by code_simp

text \<open>
  C4, amended: on every domain state in which, when the pair has an overlap \<open>(i, j)\<close>, x
  is a key, y is a key unless x's domain is empty, every word of x has a letter \<open>i\<close> and
  every word of y a letter \<open>j\<close> (so on every node-consistent state of a well-formed
  puzzle), \<open>revise(x, y)\<close> returns; x's domain becomes the words \<open>w\<close> of it with
  \<open>w[i] == y'[j]\<close> for some \<open>y'\<close> in y's domain; the result is True iff x's domain
  changed; no other domain and no key changes; and without an overlap the result is False
  and the state is the same.
\<close>

theorem revise_semantics:
  assumes "\<forall>i j. overlaps cw (x, y) = Some (i, j) \<longrightarrow>
             has_key doms x \<and> (domain_of doms x = [] \<or> has_key doms y) \<and>
             (\<forall>w \<in> set (domain_of doms x). i < length w) \<and>
             (\<forall>wy \<in> set (domain_of doms y). j < length wy)"
  shows "\<exists>revised doms'.
           revise cw x y doms = Inr (revised, doms') \<and>
           (\<forall>i j. overlaps cw (x, y) = Some (i, j) \<longrightarrow>
              domain_of doms' x =
                filter (\<lambda>w. \<exists>wy \<in> set (domain_of doms y). w ! i = wy ! j) (domain_of doms x)) \<and>
           (revised \<longleftrightarrow> domain_of doms' x \<noteq> domain_of doms x) \<and>
           (\<forall>v. v \<noteq> x \<longrightarrow> domain_of doms' v = domain_of doms v) \<and>
           map fst doms' = map fst doms \<and>
           (overlaps cw (x, y) = None \<longrightarrow> \<not> revised \<and> doms' = doms)"
proof (cases "overlaps cw (x, y)")
  case None
  then show ?thesis by (intro exI[of _ False] exI[of _ doms]) (simp add: revise_None)
next
  case (Some p)
  obtain i j where p: "p = (i, j)" by (cases p)
  note ov = Some[unfolded p]
  from assms ov have hx: "has_key doms x" and hy: "domain_of doms x = [] \<or> has_key doms y"
    and lx: "\<forall>w \<in> set (domain_of doms x). i < length w"
    and ly: "\<forall>wy \<in> set (domain_of doms y). j < length wy"
    by blast+
  from revise_returns[OF ov hx hy lx ly] obtain b d' where r: "revise cw x y doms = Inr (b, d')"
    by blast
  note dv = domain_of_revise[OF ov r]
  from revise_Some[OF ov r] obtain dx where dx: "lookup doms x = Inr dx"
    and b: "b \<longleftrightarrow> filter (supported doms y i j) dx \<noteq> dx"
    by blast
  have f: "filter (supported doms y i j) (domain_of doms x) =
      filter (\<lambda>w. \<exists>wy \<in> set (domain_of doms y). w ! i = wy ! j) (domain_of doms x)"
    using lx ly by (intro filter_cong) (auto simp: supported_def)
  from revise_le[OF r] have k: "map fst d' = map fst doms" by (simp add: doms_le_def)
  from dx b dv[of x] have "b \<longleftrightarrow> domain_of d' x \<noteq> domain_of doms x"
    by (simp add: lookup_domain_of)
  with r ov dv f k show ?thesis by simp
qed

theorem revise_semantics_witness:
  "revise cw_cross slot_across slot_down
     [(slot_across, [''cat'', ''dog'', ''tea'']), (slot_down, [''cat'', ''dog'', ''tea''])] =
     Inr (True, [(slot_across, [''tea'']), (slot_down, [''cat'', ''dog'', ''tea''])]) \<and>
   domain_of [(slot_across, [''tea'']), (slot_down, [''cat'', ''dog'', ''tea''])] slot_across \<noteq>
     domain_of [(slot_across, [''cat'', ''dog'', ''tea'']), (slot_down, [''cat'', ''dog'', ''tea''])]
       slot_across \<and>
   domain_of [(slot_across, [''tea'']), (slot_down, [''cat'', ''dog'', ''tea''])] slot_down =
     domain_of [(slot_across, [''cat'', ''dog'', ''tea'']), (slot_down, [''cat'', ''dog'', ''tea''])]
       slot_down"
proof -
  let ?nc = "[(slot_across, [''cat'', ''dog'', ''tea'']), (slot_down, [''cat'', ''dog'', ''tea''])]"
  let ?rv = "[(slot_across, [''tea'']), (slot_down, [''cat'', ''dog'', ''tea''])]"
  have ov: "overlaps cw_cross (slot_across, slot_down) = Some (0, 2)"
    by (simp add: cw_cross_def)
  have ne: "slot_down \<noteq> slot_across" by (simp add: slot_across_def slot_down_def)
  then have dx: "domain_of ?nc slot_across = [''cat'', ''dog'', ''tea'']"
    and dy: "domain_of ?nc slot_down = [''cat'', ''dog'', ''tea'']"
    by (simp_all add: domain_of_def)
  have hk: "has_key ?nc slot_across" "has_key ?nc slot_down"
    by (simp_all add: has_key_def)
  have r: "revise cw_cross slot_across slot_down ?nc = Inr (True, ?rv)" by code_simp
  have "\<forall>i j. overlaps cw_cross (slot_across, slot_down) = Some (i, j) \<longrightarrow>
          has_key ?nc slot_across \<and> (domain_of ?nc slot_across = [] \<or> has_key ?nc slot_down) \<and>
          (\<forall>w \<in> set (domain_of ?nc slot_across). i < length w) \<and>
          (\<forall>wy \<in> set (domain_of ?nc slot_down). j < length wy)"
    using hk by (simp add: ov dx dy)
  from revise_semantics[OF this] obtain revised doms' where
    1: "revise cw_cross slot_across slot_down ?nc = Inr (revised, doms')" and
    2: "revised \<longleftrightarrow> domain_of doms' slot_across \<noteq> domain_of ?nc slot_across" and
    3: "\<forall>v. v \<noteq> slot_across \<longrightarrow> domain_of doms' v = domain_of ?nc v"
    by blast
  from 1 r have "revised" "doms' = ?rv" by simp_all
  with 2 3 ne have "domain_of ?rv slot_across \<noteq> domain_of ?nc slot_across"
    "domain_of ?rv slot_down = domain_of ?nc slot_down" by blast+
  with r show ?thesis by blast
qed

text \<open>
  C6. Arc-consistency soundness: on a well-formed puzzle, when \<open>ac3\<close> with its default
  seeding returns True, then in the resulting domain state every word of X's domain has,
  for every neighbour Y of X with overlap \<open>(i, j)\<close>, a word of Y's domain whose letter
  \<open>j\<close> is its letter \<open>i\<close>.
\<close>

theorem arc_consistency_soundness:
  assumes "wf_crossword cw" "ac3 cw None doms = Inr (True, doms')"
  shows "arc_consistent cw doms'"
  by (rule arcs_ok_arc_consistent) (rule ac3_arcs_ok[OF assms])

theorem arc_consistency_soundness_witness:
  "wf_crossword cw_cross \<and>
   ac3 cw_cross None
     [(slot_across, [''cat'', ''dog'', ''tea'']), (slot_down, [''cat'', ''dog'', ''tea''])] =
     Inr (True, [(slot_across, [''tea'']), (slot_down, [''cat''])]) \<and>
   arc_consistent cw_cross [(slot_across, [''tea'']), (slot_down, [''cat''])]"
proof -
  have a: "ac3 cw_cross None
     [(slot_across, [''cat'', ''dog'', ''tea'']), (slot_down, [''cat'', ''dog'', ''tea''])] =
     Inr (True, [(slot_across, [''tea'']), (slot_down, [''cat''])])" by code_simp
  from arc_consistency_soundness[OF wf_cw_cross a] wf_cw_cross a show ?thesis by simp
qed

text \<open>
  C8. Idempotence of re-propagation: on a well-formed puzzle, when \<open>ac3\<close> with its
  default seeding has returned True, running \<open>ac3\<close> again on the resulting domain state,
  with the default seeding or any other, returns True and the very same state.
\<close>

theorem ac3_idempotent:
  assumes "wf_crossword cw" "ac3 cw None doms = Inr (True, doms')"
  shows "ac3 cw None doms' = Inr (True, doms') \<and> ac3 cw (Some arcs) doms' = Inr (True, doms')"
  using ac3_loop_noop[OF assms(1) ac3_arcs_ok[OF assms]] by (simp add: ac3_def)

theorem ac3_idempotent_witness:
  "wf_crossword cw_cross \<and>
   ac3 cw_cross None
     [(slot_across, [''cat'', ''dog'', ''tea'']), (slot_down, [''cat'', ''dog'', ''tea''])] =
     Inr (True, [(slot_across, [''tea'']), (slot_down, [''cat''])]) \<and>
   ac3 cw_cross None [(slot_across, [''tea'']), (slot_down, [''cat''])] =
     Inr (True, [(slot_across, [''tea'']), (slot_down, [''cat''])])"
proof -
  have a: "ac3 cw_cross None
     [(slot_across, [''cat'', ''dog'', ''tea'']), (slot_down, [''cat'', ''dog'', ''tea''])] =
     Inr (True, [(slot_across, [''tea'']), (slot_down, [''cat''])])" by code_simp
  from ac3_idempotent[OF wf_cw_cross a] wf_cw_cross a show ?thesis by simp
qed

text \<open>
  C1. Backtracking soundness: on a well-formed puzzle, every assignment that \<open>solve\<close>
  returns has one word for every slot (and no other key); each word is in the vocabulary
  and has the length of its slot; different slots have different words; and for every
  crossing pair of slots with overlap \<open>(i, j)\<close> the letters \<open>word_x[i]\<close> and
  \<open>word_y[j]\<close> are equal.
\<close>

theorem backtracking_soundness:
  assumes "wf_crossword cw" "solve cw (CrosswordCreator cw) = Inr (Some r, d)"
  shows "assignment_complete cw r \<and> fst ` set r = set (variables cw) \<and> solution cw r"
  using assms by (rule solve_sound)

theorem backtracking_soundness_witness:
  "wf_crossword cw_cross \<and>
   solve cw_cross (CrosswordCreator cw_cross) =
     Inr (Some [(slot_across, ''tea''), (slot_down, ''cat'')],
          [(slot_across, [''tea'']), (slot_down, [''cat''])]) \<and>
   assignment_complete cw_cross [(slot_across, ''tea''), (slot_down, ''cat'')] \<and>
   solution cw_cross [(slot_across, ''tea''), (slot_down, ''cat'')]"
proof -
  have s: "solve cw_cross (CrosswordCreator cw_cross) =
     Inr (Some [(slot_across, ''tea''), (slot_down, ''cat'')],
          [(slot_across, [''tea'']), (slot_down, [''cat''])])" by code_simp
  from backtracking_soundness[OF wf_cw_cross s] wf_cw_cross s show ?thesis by blast
qed

text \<open>
  C2. Backtracking completeness: on a well-formed puzzle, if some assignment gives every
  slot a vocabulary word of the slot's length, different words to different slots, and
  equal letters at every overlap, then \<open>solve\<close> returns an assignment with these
  properties, not None (and it raises no exception).
\<close>

theorem backtracking_completeness:
  assumes "wf_crossword cw" "solution cw s"
  shows "\<exists>r d. solve cw (CrosswordCreator cw) = Inr (Some r, d) \<and>
           assignment_complete cw r \<and> solution cw r"
proof -
  from enforce_node_consistency_returns obtain d1 where
    e: "enforce_node_consistency cw (CrosswordCreator cw) = Inr d1" by blast
  note ok1 = enforce_domains_ok[OF e] and si1 = enforce_sol_in[OF assms(2) e]
  from ac3_returns[OF assms(1) ok1] obtain arc d2 where a: "ac3 cw None d1 = Inr (arc, d2)"
    by blast
  then have "ac3_loop cw (all_arcs cw) d1 = Inr (arc, d2)" by (simp add: ac3_def)
  from ac3_loop_sol_in[OF assms si1 this] have si2: "sol_in cw s d2" by simp
  from domains_ok_le[OF ac3_le[OF a] ok1] have ok2: "domains_ok cw d2" .
  from backtrack_total(1)[OF assms(1) ok2 assignment_ok_Nil] obtain res a' d where
    b: "backtrack cw [] d2 = Inr (res, a', d)" by blast
  from backtrack_complete(1)[OF assms ok2 si2 assignment_ok_Nil _ b] obtain r where
    r: "res = Some r" by auto
  from e a b r have s: "solve cw (CrosswordCreator cw) = Inr (Some r, d)"
    by (simp add: solve_def)
  with solve_sound[OF assms(1) s] show ?thesis by blast
qed


theorem backtracking_completeness_witness:
  "wf_crossword cw_cross \<and> solution cw_cross [(slot_down, ''cat''), (slot_across, ''tea'')] \<and>
   solve cw_cross (CrosswordCreator cw_cross) =
     Inr (Some [(slot_across, ''tea''), (slot_down, ''cat'')],
          [(slot_across, [''tea'']), (slot_down, [''cat''])])"
proof -
  have sol: "solution cw_cross [(slot_down, ''cat''), (slot_across, ''tea'')]"
    by (auto simp: solution_def cw_cross_def slot_across_def slot_down_def split: if_splits)
  have s: "solve cw_cross (CrosswordCreator cw_cross) =
     Inr (Some [(slot_across, ''tea''), (slot_down, ''cat'')],
          [(slot_across, [''tea'']), (slot_down, [''cat''])])" by code_simp
  from backtracking_completeness[OF wf_cw_cross sol] s wf_cw_cross sol show ?thesis by blast
qed

text \<open>
  C9. Graceful unsolvability: on a well-formed puzzle whose vocabulary has no word of
  the length of some slot, \<open>solve\<close> returns, and what it returns is None; no exception
  is raised.
\<close>

theorem solve_unsolvable_vocabulary:
  assumes wf: "wf_crossword cw" and v: "v \<in> set (variables cw)"
    and none: "\<forall>w \<in> set (words cw). length w \<noteq> length_v v"
  shows "\<exists>d. solve cw (CrosswordCreator cw) = Inr (None, d)"
proof -
  from wf have dv: "distinct (variables cw)" by (simp add: wf_crossword_def)
  from enforce_node_consistency_returns obtain d1 where
    e: "enforce_node_consistency cw (CrosswordCreator cw) = Inr d1" by blast
  note ok1 = enforce_domains_ok[OF e]
  from ac3_returns[OF wf ok1] obtain arc d2 where a: "ac3 cw None d1 = Inr (arc, d2)"
    by blast
  from domains_ok_le[OF ac3_le[OF a] ok1] have ok2: "domains_ok cw d2" .
  from domains_ok_D(2,3)[OF ok2 v] none have empty: "domain_of d2 v = []"
    by (cases "domain_of d2 v") auto
  from v have nc: "\<not> assignment_complete cw []" by (auto simp: assignment_complete_def)
  from select_unassigned_variable_returns[OF dv ok2 assignment_ok_Nil nc] obtain var where
    sel: "select_unassigned_variable cw [] d2 = Inr var" by blast
  from select_unassigned_variable_smallest[OF sel v] empty have e2: "domain_of d2 var = []"
    by simp
  from select_unassigned_variable_mem[OF sel] have "var \<in> set (variables cw)" by simp
  from order_domain_values_returns[OF wf ok2 this] obtain vals where
    ord: "order_domain_values cw var [] d2 = Inr vals" by blast
  from order_domain_values_set[OF ord] e2 have "vals = []" by simp
  with nc sel ord have "backtrack cw [] d2 = Inr (None, [], d2)"
    by (simp add: backtrack.simps try_values.simps)
  with e a show ?thesis by (simp add: solve_def)
qed

theorem solve_unsolvable_vocabulary_witness:
  "wf_crossword cw_single \<and> slot_across \<in> set (variables cw_single) \<and>
   solve cw_single (CrosswordCreator cw_single) = Inr (None, [(slot_across, [])])"
proof -
  have v: "slot_across \<in> set (variables cw_single)" by (simp add: cw_single_def)
  have n: "\<forall>w \<in> set (words cw_single). length w \<noteq> length_v slot_across"
    by (simp add: cw_single_def slot_across_def)
  have s: "solve cw_single (CrosswordCreator cw_single) = Inr (None, [(slot_across, [])])"
    by code_simp
  from solve_unsolvable_vocabulary[OF wf_cw_single v n] s wf_cw_single v show ?thesis by blast
qed

text \<open>
  C10. \<open>backtrack\<close> never writes the tentative assignment into \<open>self.domains\<close>: the
  only writes are those of \<open>ac3\<close> and the restoring of the snapshot. So when \<open>doms\<close>
  is a state on which \<open>ac3()\<close> returned True on a well-formed puzzle (as after the
  first \<open>ac3\<close> of \<open>solve\<close>): \<open>ac3()\<close> on it returns True and changes nothing; one
  turn of the loop over the candidate words therefore calls \<open>backtrack\<close> with that very
  state and goes on with that very state; and \<open>backtrack\<close> and its loop end in that
  state whatever they return. Hence every recursive call is entered with \<open>doms\<close>.
\<close>

theorem backtrack_keeps_propagated_domains:
  assumes "wf_crossword cw" "ac3 cw None doms0 = Inr (True, doms)"
  shows "ac3 cw None doms = Inr (True, doms) \<and>
    try_values cw var (val # vals) a doms =
      (case consistent cw (AList.update var val a) of
         Inl e \<Rightarrow> Inl e
       | Inr ok \<Rightarrow>
           if ok then
             (case backtrack cw (AList.update var val a) doms of
                Inl e \<Rightarrow> Inl e
              | Inr (result, a2, doms2) \<Rightarrow>
                  if truthy result then Inr (result, a2, doms2)
                  else
                    (case delitem a2 var of
                       Inl e \<Rightarrow> Inl e
                     | Inr a3 \<Rightarrow> try_values cw var vals a3 doms))
           else try_values cw var vals a doms) \<and>
    (backtrack cw a doms = Inr (res, a', d') \<longrightarrow> d' = doms) \<and>
    (try_values cw var vals a doms = Inr (res, a', d') \<longrightarrow> d' = doms)"
proof -
  from ac3_arcs_ok[OF assms] have ok: "\<forall>x y. arc_ok cw doms x y" by blast
  then have noop: "ac3 cw None doms = Inr (True, doms)"
    by (simp add: ac3_def ac3_loop_noop[OF assms(1)])
  then have "try_values cw var (val # vals) a doms =
      (case consistent cw (AList.update var val a) of
         Inl e \<Rightarrow> Inl e
       | Inr ok \<Rightarrow>
           if ok then
             (case backtrack cw (AList.update var val a) doms of
                Inl e \<Rightarrow> Inl e
              | Inr (result, a2, doms2) \<Rightarrow>
                  if truthy result then Inr (result, a2, doms2)
                  else
                    (case delitem a2 var of
                       Inl e \<Rightarrow> Inl e
                     | Inr a3 \<Rightarrow> try_values cw var vals a3 doms))
           else try_values cw var vals a doms)"
    by (simp add: try_values.simps(2)[of cw var val vals] split: sum.splits)
  with noop backtrack_arcs_ok_same[OF assms(1) ok] show ?thesis by blast
qed

theorem backtrack_keeps_propagated_domains_witness:
  "wf_crossword cw_cross \<and>
   ac3 cw_cross None
     [(slot_across, [''cat'', ''dog'', ''tea'']), (slot_down, [''cat'', ''dog'', ''tea''])] =
     Inr (True, [(slot_across, [''tea'']), (slot_down, [''cat''])]) \<and>
   ac3 cw_cross None [(slot_across, [''tea'']), (slot_down, [''cat''])] =
     Inr (True, [(slot_across, [''tea'']), (slot_down, [''cat''])]) \<and>
   backtrack cw_cross [] [(slot_across, [''tea'']), (slot_down, [''cat''])] =
     Inr (Some [(slot_across, ''tea''), (slot_down, ''cat'')],
          [(slot_across, ''tea''), (slot_down, ''cat'')],
          [(slot_across, [''tea'']), (slot_down, [''cat''])])"
proof -
  let ?nc = "[(slot_across, [''cat'', ''dog'', ''tea'']), (slot_down, [''cat'', ''dog'', ''tea''])]"
  let ?ac = "[(slot_across, [''tea'']), (slot_down, [''cat''])]"
  have a: "ac3 cw_cross None ?nc = Inr (True, ?ac)" by code_simp
  have b: "backtrack cw_cross [] ?ac =
     Inr (Some [(slot_across, ''tea''), (slot_down, ''cat'')],
          [(slot_across, ''tea''), (slot_down, ''cat'')], ?ac)" by code_simp
  from backtrack_keeps_propagated_domains[OF wf_cw_cross a]
  have "ac3 cw_cross None ?ac = Inr (True, ?ac)" by blast
  with a b wf_cw_cross show ?thesis by blast
qed

end
